theory Spec2Isabelle
  imports Complex_Main "HOL-Library.Signed_Division"
begin

section \<open>The machine model\<close>

text \<open>
  The program is C++ on an LP64 platform: \<open>int\<close> has 32 bits, \<open>long long int\<close> has 64,
  \<open>float\<close> and \<open>double\<close> are IEEE 754 binary32 and binary64.  Machine integers are
  modelled as \<open>int\<close> with the range checked where the source computes a new value:
  signed overflow is undefined behaviour in C++, so it is an error value here and not a
  wrap-around.  Every way in which a call can fail to return a value is a constructor of
  \<open>error\<close>:
  \<^item> \<open>AssertionFailed\<close>: the condition of an \<open>assert\<close> is false (asserts are compiled in,
    that is, \<open>NDEBUG\<close> is not defined);
  \<^item> \<open>SignedOverflow\<close>: the result of a signed operation is not representable;
  \<^item> \<open>IndexOutOfRange\<close>: \<open>operator[]\<close> of a vector is applied to an index that is not
    below its size;
  \<^item> \<open>LengthError\<close>: \<open>vector::reserve\<close> is asked for more than \<open>max_size()\<close>;
  \<^item> \<open>DivisionByZero\<close>: the right operand of an integer \<open>%\<close> is zero;
  \<^item> \<open>FloatToIntRange\<close>: a floating-point value that is not a finite number in the range
    of \<open>long long int\<close> is converted to \<open>long long int\<close>.
\<close>

datatype error =
    AssertionFailed
  | SignedOverflow
  | IndexOutOfRange
  | LengthError
  | DivisionByZero
  | FloatToIntRange

definition INT_MAX :: int where
  "INT_MAX = 2147483647"

definition LLONG_MAX :: int where
  "LLONG_MAX = 9223372036854775807"

definition LLONG_MIN :: int where
  "LLONG_MIN = - 9223372036854775808"

text \<open>The result of a \<open>long long int\<close> operation whose mathematical value is \<open>v\<close>.\<close>

definition ll :: "int \<Rightarrow> error + int" where
  "ll v = (if LLONG_MIN \<le> v \<and> v \<le> LLONG_MAX then Inr v else Inl SignedOverflow)"

text \<open>
  The operator \<open>%\<close> truncates towards zero: it is \<open>smod\<close>, not \<open>mod\<close>.  Where the
  divisor can be zero the check is written out.
\<close>

definition ll_rem :: "int \<Rightarrow> int \<Rightarrow> error + int" where
  "ll_rem a b =
     (if b = 0 then Inl DivisionByZero
      else if a = LLONG_MIN \<and> b = - 1 then Inl SignedOverflow
      else Inr (a smod b))"

text \<open>Sequencing of fallible steps: the first error ends the computation.\<close>

definition and_then :: "error + 'a \<Rightarrow> ('a \<Rightarrow> error + 'b) \<Rightarrow> error + 'b" where
  "and_then r f = (case r of Inl err \<Rightarrow> Inl err | Inr v \<Rightarrow> f v)"

text \<open>\<open>assert(c)\<close>: continues when \<open>c\<close> is true, aborts the program otherwise.\<close>

definition assert :: "bool \<Rightarrow> error + unit" where
  "assert c = (if c then Inr () else Inl AssertionFailed)"

section \<open>Keys\<close>

record Key_Public =
  pub_n :: int
  pub_e :: int

record Key_Private =
  priv_p :: int
  priv_q :: int
  priv_d :: int

section \<open>Utility::Math\<close>

subsection \<open>isPrime\<close>

text \<open>
  \<^verbatim>\<open>for (int i { 2 }; i < x; ++i) if (x % i == 0) return false; return true;\<close>
  The counter is an \<open>int\<close> while \<open>x\<close> is a \<open>long long int\<close>: \<open>++i\<close> at \<open>INT_MAX\<close>
  overflows.
\<close>

function isPrime_loop :: "int \<Rightarrow> int \<Rightarrow> error + bool" where
  "isPrime_loop x i =
     (if i < x then
        (if x smod i = 0 then Inr False
         else if i = INT_MAX then Inl SignedOverflow
         else isPrime_loop x (i + 1))
      else Inr True)"
  by pat_completeness auto
termination
  by (relation "measure (\<lambda>(x, i). nat (x - i))") auto

declare isPrime_loop.simps [simp del]

definition isPrime :: "int \<Rightarrow> error + bool" where
  "isPrime x = isPrime_loop x 2"

subsection \<open>dividerList\<close>

text \<open>
  \<open>reserve(x)\<close> takes a \<open>size_t\<close>: a negative \<open>x\<close> converts to a value of at least
  \<open>2^63\<close>, and any request above \<open>max_size()\<close> throws \<open>std::length_error\<close>, which nothing
  catches.  \<open>max_size()\<close> of a vector of 8-byte elements is \<open>(2^63 - 1) div 8\<close> in the GNU
  library.  Memory is not modelled: a request within \<open>max_size()\<close> is taken to succeed.
  Past the guard \<open>x < LLONG_MAX\<close>, so \<open>++i\<close> cannot overflow in the loop
  \<^verbatim>\<open>for (long long int i { 1 }; i <= x; ++i) if (x % i == 0) push_back(i);\<close>
\<close>

definition vector_max_size :: int where
  "vector_max_size = 1152921504606846975"

function dividerList_loop :: "int \<Rightarrow> int \<Rightarrow> int list \<Rightarrow> int list" where
  "dividerList_loop x i x_dividerList =
     (if i \<le> x then
        dividerList_loop x (i + 1)
          (if x smod i = 0 then x_dividerList @ [i] else x_dividerList)
      else x_dividerList)"
  by pat_completeness auto
termination
  by (relation "measure (\<lambda>(x, i, l). nat (x + 1 - i))") auto

declare dividerList_loop.simps [simp del]

definition dividerList :: "int \<Rightarrow> error + int list" where
  "dividerList x =
     (if x < 0 \<or> vector_max_size < x then Inl LengthError
      else Inr (dividerList_loop x 1 []))"

subsection \<open>areCoprimes\<close>

text \<open>
  The two loops of the source, with \<open>size_t\<close> counters.  The inner loop reads
  \<open>a_dividerList[i]\<close> and \<open>b_dividerList[i]\<close>, both at the inner counter; the outer counter
  \<open>j\<close> is not used in the body.  \<open>areCoprimes_inner\<close> returns \<open>Inr True\<close> when it found
  equal entries (the source then returns \<open>false\<close>), \<open>Inr False\<close> when it ran to the end.
\<close>

function areCoprimes_inner :: "int list \<Rightarrow> int list \<Rightarrow> nat \<Rightarrow> error + bool" where
  "areCoprimes_inner a_dividerList b_dividerList i =
     (if i < length a_dividerList then
        (if i < length b_dividerList then
           (if a_dividerList ! i = b_dividerList ! i then Inr True
            else areCoprimes_inner a_dividerList b_dividerList (i + 1))
         else Inl IndexOutOfRange)
      else Inr False)"
  by pat_completeness auto
termination
  by (relation "measure (\<lambda>(al, bl, i). length al - i)") auto

declare areCoprimes_inner.simps [simp del]

function areCoprimes_outer :: "int list \<Rightarrow> int list \<Rightarrow> nat \<Rightarrow> error + bool" where
  "areCoprimes_outer a_dividerList b_dividerList j =
     (if j < length b_dividerList then
        (case areCoprimes_inner a_dividerList b_dividerList 1 of
           Inl err \<Rightarrow> Inl err
         | Inr found \<Rightarrow>
             if found then Inr False
             else areCoprimes_outer a_dividerList b_dividerList (j + 1))
      else Inr True)"
  by pat_completeness auto
termination
  by (relation "measure (\<lambda>(al, bl, j). length bl - j)") auto

declare areCoprimes_outer.simps [simp del]

definition areCoprimes :: "int \<Rightarrow> int \<Rightarrow> error + bool" where
  "areCoprimes a b =
     (if a = 1 \<or> b = 1 then Inr True
      else and_then (dividerList a) (\<lambda>a_dividerList.
           and_then (dividerList b) (\<lambda>b_dividerList.
             areCoprimes_outer a_dividerList b_dividerList 1)))"

subsection \<open>phi\<close>

text \<open>
  \<^verbatim>\<open>assert(p * q == n); assert(isPrime(p) && isPrime(q)); return (p - 1) * (q - 1);\<close>
  \<open>&&\<close> evaluates its right operand only when the left one is true.
\<close>

definition both_prime :: "int \<Rightarrow> int \<Rightarrow> error + bool" where
  "both_prime p q =
     and_then (isPrime p) (\<lambda>prime_p. if prime_p then isPrime q else Inr False)"

definition phi :: "int \<Rightarrow> int \<Rightarrow> int \<Rightarrow> error + int" where
  "phi n p q =
     and_then (ll (p * q)) (\<lambda>pq.
     and_then (assert (pq = n)) (\<lambda>_.
     and_then (both_prime p q) (\<lambda>primes.
     and_then (assert primes) (\<lambda>_.
     and_then (ll (p - 1)) (\<lambda>p1.
     and_then (ll (q - 1)) (\<lambda>q1.
       ll (p1 * q1)))))))"

subsection \<open>power\<close>

text \<open>
  \<^verbatim>\<open>if (exponent == 0) return 1;
  long long int result { x };
  for (long long int i { 1 }; i < exponent; ++i) result *= x;
  return result;\<close>
  The counter stays below \<open>exponent\<close>, so only the product can overflow.
\<close>

function power_loop :: "int \<Rightarrow> int \<Rightarrow> int \<Rightarrow> int \<Rightarrow> error + int" where
  "power_loop x exponent i result =
     (if i < exponent then
        (case ll (result * x) of
           Inl err \<Rightarrow> Inl err
         | Inr result' \<Rightarrow> power_loop x exponent (i + 1) result')
      else Inr result)"
  by pat_completeness auto
termination
  by (relation "measure (\<lambda>(x, exponent, i, result). nat (exponent - i))") auto

declare power_loop.simps [simp del]

definition power :: "int \<Rightarrow> int \<Rightarrow> error + int" where
  "power x exponent = (if exponent = 0 then Inr 1 else power_loop x exponent 1 x)"

section \<open>Floating point\<close>

text \<open>
  \<open>privateKey\<close> computes in \<open>float\<close> and \<open>double\<close>.  A finite floating-point number is
  modelled by the rational it denotes, and every operation rounds the exact result to
  the nearest number with \<open>prec\<close> significant bits, ties to the even significand
  (\<open>prec = 24\<close> for \<open>float\<close>, \<open>53\<close> for \<open>double\<close>).  Each operation rounds once, in its
  own format (\<open>FLT_EVAL_METHOD\<close> is 0 and a product and a sum are not fused).  The
  exponent range is not modelled: the operands below are quotients and products of at
  most two \<open>long long int\<close> values, far inside the normal range of both formats, and the
  one way to leave it, a division by zero, is checked where it happens.
\<close>

definition pow2 :: "int \<Rightarrow> rat" where
  "pow2 k = (if 0 \<le> k then 2 ^ nat k else 1 / 2 ^ nat (- k))"

fun ilog2 :: "nat \<Rightarrow> nat" where
  "ilog2 n = (if n < 2 then 0 else Suc (ilog2 (n div 2)))"

declare ilog2.simps [simp del]

text \<open>The binary exponent of \<open>x \<noteq> 0\<close>: \<open>pow2 (binade x) \<le> \<bar>x\<bar> < pow2 (binade x + 1)\<close>.\<close>

definition binade :: "rat \<Rightarrow> int" where
  "binade x =
     (if 1 \<le> \<bar>x\<bar> then int (ilog2 (nat \<lfloor>\<bar>x\<bar>\<rfloor>))
      else (let j = int (ilog2 (nat \<lfloor>1 / \<bar>x\<bar>\<rfloor>))
            in if \<bar>x\<bar> = pow2 (- j) then - j else - j - 1))"

definition round_half_even :: "rat \<Rightarrow> int" where
  "round_half_even r =
     (let f = \<lfloor>r\<rfloor>; d = r - of_int f
      in if d < 1 / 2 then f
         else if 1 / 2 < d then f + 1
         else if even f then f else f + 1)"

definition fl :: "nat \<Rightarrow> rat \<Rightarrow> rat" where
  "fl prec x =
     (if x = 0 then 0
      else (let ulp = pow2 (binade x - int prec + 1)
            in of_int (round_half_even (x / ulp)) * ulp))"

text \<open>\<open>static_cast<long long int>\<close> of a \<open>double\<close> discards the fraction.\<close>

definition double_to_ll :: "rat \<Rightarrow> error + int" where
  "double_to_ll x =
     (let t = (if 0 \<le> x then \<lfloor>x\<rfloor> else \<lceil>x\<rceil>)
      in if LLONG_MIN \<le> t \<and> t \<le> LLONG_MAX then Inr t else Inl FloatToIntRange)"

section \<open>Generate\<close>

subsection \<open>publicKey\<close>

text \<open>
  \<^verbatim>\<open>long long int e {};
  for (long long int i { 2 }; i < n_eulero; ++i)
      if (areCoprimes(i, n_eulero)) { e = i; break; }\<close>
  \<open>e\<close> keeps its initial value 0 when the loop ends without a \<open>break\<close>.
\<close>

function publicKey_scan :: "int \<Rightarrow> int \<Rightarrow> error + int" where
  "publicKey_scan n_eulero i =
     (if i < n_eulero then
        (case areCoprimes i n_eulero of
           Inl err \<Rightarrow> Inl err
         | Inr are_coprimes \<Rightarrow>
             if are_coprimes then Inr i else publicKey_scan n_eulero (i + 1))
      else Inr 0)"
  by pat_completeness auto
termination
  by (relation "measure (\<lambda>(n_eulero, i). nat (n_eulero - i))") auto

declare publicKey_scan.simps [simp del]

definition publicKey :: "int \<Rightarrow> int \<Rightarrow> error + Key_Public" where
  "publicKey p q =
     and_then (both_prime p q) (\<lambda>primes.
     and_then (assert primes) (\<lambda>_.
     and_then (ll (p * q)) (\<lambda>n.
     and_then (phi n p q) (\<lambda>n_eulero.
     and_then (publicKey_scan n_eulero 2) (\<lambda>e.
       Inr \<lparr>pub_n = n, pub_e = e\<rparr>)))))"

subsection \<open>privateKey\<close>

text \<open>
  \<^verbatim>\<open>constexpr double epsilon { 0.0001f };
  temp_d = (1.0f / publicKey.e) + k * (static_cast<double>(n_eulero) / publicKey.e);
  if (temp_d <= static_cast<long long int>(temp_d) + epsilon) {
      d = static_cast<long long int>(temp_d); isFindingK = false; }
  else ++k;\<close>
  \<open>1.0f / publicKey.e\<close> is a \<open>float\<close> division (the integer converts to \<open>float\<close>); the
  other operations are in \<open>double\<close>, the integers \<open>k\<close>, \<open>publicKey.e\<close> and the truncated
  \<open>temp_d\<close> converting to \<open>double\<close>.
\<close>

definition epsilon :: rat where
  "epsilon = fl 24 (1 / 10000)"

definition temp_d_at :: "int \<Rightarrow> int \<Rightarrow> int \<Rightarrow> rat" where
  "temp_d_at e n_eulero k =
     fl 53 (fl 24 (1 / fl 24 (of_int e))
            + fl 53 (fl 53 (of_int k) * fl 53 (fl 53 (of_int n_eulero) / fl 53 (of_int e))))"

function privateKey_loop :: "int \<Rightarrow> int \<Rightarrow> int \<Rightarrow> error + int" where
  "privateKey_loop e n_eulero k =
     (case double_to_ll (temp_d_at e n_eulero k) of
        Inl err \<Rightarrow> Inl err
      | Inr t \<Rightarrow>
          if temp_d_at e n_eulero k \<le> fl 53 (fl 53 (of_int t) + epsilon) then Inr t
          else if k < LLONG_MAX then privateKey_loop e n_eulero (k + 1)
          else Inl SignedOverflow)"
  by pat_completeness auto
termination
  by (relation "measure (\<lambda>(e, n_eulero, k). nat (LLONG_MAX - k))") auto

declare privateKey_loop.simps [simp del]

text \<open>
  With \<open>publicKey.e = 0\<close> both quotients are infinite or not a number, and so is
  \<open>temp_d\<close>: its conversion to \<open>long long int\<close> is undefined.
\<close>

definition privateKey :: "int \<Rightarrow> int \<Rightarrow> Key_Public \<Rightarrow> error + Key_Private" where
  "privateKey p q key =
     and_then (both_prime p q) (\<lambda>primes.
     and_then (assert primes) (\<lambda>_.
     and_then (phi (pub_n key) p q) (\<lambda>n_eulero.
     and_then (if pub_e key = 0 then Inl FloatToIntRange
               else privateKey_loop (pub_e key) n_eulero 1) (\<lambda>d.
       Inr \<lparr>priv_p = p, priv_q = q, priv_d = d\<rparr>))))"

section \<open>encode and decode\<close>

definition encode :: "Key_Public \<Rightarrow> int \<Rightarrow> error + int" where
  "encode key m = and_then (power m (pub_e key)) (\<lambda>r. ll_rem r (pub_n key))"

definition decode :: "Key_Public \<Rightarrow> Key_Private \<Rightarrow> int \<Rightarrow> error + int" where
  "decode key priv c = and_then (power c (priv_d priv)) (\<lambda>r. ll_rem r (pub_n key))"

section \<open>What the loops compute\<close>

subsection \<open>The remainder test\<close>

lemma smod_eq_0_iff_dvd: "(x smod i = 0) = (i dvd x)" for x i :: int
proof -
  have "(x smod i = 0) = (sgn x * (\<bar>x\<bar> mod \<bar>i\<bar>) = 0)"
    by (simp only: signed_modulo_int_def)
  also have "\<dots> = (x = 0 \<or> \<bar>x\<bar> mod \<bar>i\<bar> = 0)"
    by (simp add: sgn_if)
  also have "\<dots> = (\<bar>i\<bar> dvd \<bar>x\<bar>)"
    by (cases "x = 0") (simp_all add: dvd_eq_mod_eq_0)
  also have "\<dots> = (i dvd x)" by simp
  finally show ?thesis .
qed

subsection \<open>Sequencing\<close>

lemma and_then_Inr_iff:
  "(and_then r f = Inr v) = (\<exists>u. r = Inr u \<and> f u = Inr v)"
  by (cases r) (simp_all add: and_then_def)

lemma assert_Inr_iff: "(assert c = Inr u) = c"
  by (simp add: assert_def)

subsection \<open>isPrime\<close>

text \<open>
  The loop answers false at the first divisor it meets, true when the counter reaches
  \<open>x\<close>, and runs into the overflow of its \<open>int\<close> counter when \<open>x\<close> is beyond
  \<open>INT_MAX\<close> and has no divisor from 2 to \<open>INT_MAX\<close>.
\<close>

lemma ex_shift:
  fixes i x m :: int
  assumes "\<not> i dvd x"
  shows "(\<exists>k. i \<le> k \<and> k < x \<and> k \<le> m \<and> k dvd x)
       = (\<exists>k. i + 1 \<le> k \<and> k < x \<and> k \<le> m \<and> k dvd x)"
proof
  assume "\<exists>k. i \<le> k \<and> k < x \<and> k \<le> m \<and> k dvd x"
  then obtain k where k: "i \<le> k" "k < x" "k \<le> m" "k dvd x" by blast
  with assms have "k \<noteq> i" by auto
  with k have "i + 1 \<le> k" by simp
  with k show "\<exists>k. i + 1 \<le> k \<and> k < x \<and> k \<le> m \<and> k dvd x" by blast
next
  assume "\<exists>k. i + 1 \<le> k \<and> k < x \<and> k \<le> m \<and> k dvd x"
  then obtain k where k: "i + 1 \<le> k" "k < x" "k \<le> m" "k dvd x" by blast
  then have "i \<le> k" by simp
  with k show "\<exists>k. i \<le> k \<and> k < x \<and> k \<le> m \<and> k dvd x" by blast
qed

lemma isPrime_loop_eq:
  "2 \<le> i \<Longrightarrow> i \<le> INT_MAX \<Longrightarrow>
   isPrime_loop x i =
     (if \<exists>k. i \<le> k \<and> k < x \<and> k \<le> INT_MAX \<and> k dvd x then Inr False
      else if x \<le> INT_MAX then Inr True else Inl SignedOverflow)"
proof (induction x i rule: isPrime_loop.induct)
  case (1 x i)
  show ?case
  proof (cases "i < x")
    case False
    then have "\<not> (\<exists>k. i \<le> k \<and> k < x \<and> k \<le> INT_MAX \<and> k dvd x)" by auto
    moreover have "x \<le> INT_MAX" using False "1.prems" by simp
    moreover have "isPrime_loop x i = Inr True"
      using False by (subst isPrime_loop.simps) simp
    ultimately show ?thesis by simp
  next
    case lt: True
    show ?thesis
    proof (cases "i dvd x")
      case True
      then have "\<exists>k. i \<le> k \<and> k < x \<and> k \<le> INT_MAX \<and> k dvd x"
        using lt "1.prems" by blast
      moreover have "isPrime_loop x i = Inr False"
        using lt True by (subst isPrime_loop.simps) (simp add: smod_eq_0_iff_dvd)
      ultimately show ?thesis by simp
    next
      case nd: False
      show ?thesis
      proof (cases "i = INT_MAX")
        case True
        then have "\<not> (\<exists>k. i \<le> k \<and> k < x \<and> k \<le> INT_MAX \<and> k dvd x)"
          using nd by auto
        moreover have "\<not> x \<le> INT_MAX" using lt True by simp
        moreover have "isPrime_loop x i = Inl SignedOverflow" using lt nd True
          by (subst isPrime_loop.simps) (simp add: smod_eq_0_iff_dvd)
        ultimately show ?thesis by simp
      next
        case False
        then have i1: "2 \<le> i + 1" "i + 1 \<le> INT_MAX" using "1.prems" by auto
        have "isPrime_loop x i = isPrime_loop x (i + 1)"
          using lt nd False by (subst isPrime_loop.simps) (simp add: smod_eq_0_iff_dvd)
        also have "\<dots> = (if \<exists>k. i + 1 \<le> k \<and> k < x \<and> k \<le> INT_MAX \<and> k dvd x then Inr False
            else if x \<le> INT_MAX then Inr True else Inl SignedOverflow)"
          using lt nd False i1 by (intro "1.IH") (simp_all add: smod_eq_0_iff_dvd)
        finally show ?thesis unfolding ex_shift [OF nd] .
      qed
    qed
  qed
qed

lemma isPrime_eq:
  "isPrime x =
     (if \<exists>k. 2 \<le> k \<and> k < x \<and> k \<le> INT_MAX \<and> k dvd x then Inr False
      else if x \<le> INT_MAX then Inr True else Inl SignedOverflow)"
  unfolding isPrime_def by (rule isPrime_loop_eq) (simp_all add: INT_MAX_def)

lemma isPrime_in_range:
  "x \<le> INT_MAX \<Longrightarrow> isPrime x = Inr (\<not> (\<exists>k. 2 \<le> k \<and> k < x \<and> k dvd x))"
proof -
  assume x: "x \<le> INT_MAX"
  then have "(\<exists>k. 2 \<le> k \<and> k < x \<and> k \<le> INT_MAX \<and> k dvd x) = (\<exists>k. 2 \<le> k \<and> k < x \<and> k dvd x)"
    by auto
  then show ?thesis using x unfolding isPrime_eq by (simp only: if_True if_False split: if_split) simp
qed

lemma isPrime_4: "isPrime 4 = Inr False"
  by code_simp

subsection \<open>dividerList\<close>

lemma dividerList_loop_eq:
  "dividerList_loop x i acc = acc @ filter (\<lambda>k. k dvd x) [i..x]"
proof (induction x i acc rule: dividerList_loop.induct)
  case (1 x i acc)
  show ?case
  proof (cases "i \<le> x")
    case True
    then have "[i..x] = i # [i + 1..x]" by (simp add: upto_rec1)
    then show ?thesis using True "1.IH"
      by (subst dividerList_loop.simps) (simp add: smod_eq_0_iff_dvd)
  next
    case False
    then show ?thesis by (subst dividerList_loop.simps) simp
  qed
qed

lemma dividerList_eq:
  "0 \<le> x \<Longrightarrow> x \<le> vector_max_size \<Longrightarrow> dividerList x = Inr (filter (\<lambda>k. k dvd x) [1..x])"
  by (simp add: dividerList_def dividerList_loop_eq)

lemma dividerList_InrD:
  assumes "dividerList x = Inr l"
  shows "l = filter (\<lambda>k. k dvd x) [1..x]"
  using assms by (simp add: dividerList_def dividerList_loop_eq split: if_splits)

lemma length_divisors_ge2:
  assumes "2 \<le> x"
  shows "2 \<le> length (filter (\<lambda>k. k dvd x) [1..x])"
proof -
  let ?l = "filter (\<lambda>k. k dvd x) [1..x]"
  have "{1, x} \<subseteq> set ?l" using assms by auto
  then have "card {1, x} \<le> card (set ?l)" by (intro card_mono) auto
  moreover have "card {1, x} = 2" using assms by auto
  moreover have "card (set ?l) \<le> length ?l" by (rule card_length)
  ultimately show ?thesis by simp
qed

lemma divisors_from_2:
  assumes "2 \<le> m"
  shows "filter (\<lambda>k. k dvd m) [1..m]
       = 1 # (if 2 dvd m then [2] else []) @ filter (\<lambda>k. k dvd m) [3..m]"
proof -
  have "[1..m] = 1 # [2..m]" using assms by (simp add: upto_rec1)
  also have "[2..m] = 2 # [3..m]" using assms by (simp add: upto_rec1)
  finally show ?thesis by simp
qed

lemma divisors_second:
  assumes "2 \<le> m"
  shows "(filter (\<lambda>k. k dvd m) [1..m] ! 1 = 2) = (2 dvd m)"
proof (cases "2 dvd m")
  case True
  then show ?thesis by (simp add: divisors_from_2 [OF assms])
next
  case False
  let ?r = "filter (\<lambda>k. k dvd m) [3..m]"
  have eq: "filter (\<lambda>k. k dvd m) [1..m] = 1 # ?r"
    using False by (simp add: divisors_from_2 [OF assms])
  have "2 \<le> length (filter (\<lambda>k. k dvd m) [1..m])" using assms by (rule length_divisors_ge2)
  then have "?r \<noteq> []" unfolding eq by auto
  then have "?r ! 0 \<in> set ?r" by (intro nth_mem) simp
  then have "3 \<le> ?r ! 0" by simp
  then have "(1 # ?r) ! 1 \<noteq> 2" by simp
  then show ?thesis using False unfolding eq by simp
qed

lemma dividerList_2: "dividerList 2 = Inr [1, 2]"
  by code_simp

lemma dividerList_3: "dividerList 3 = Inr [1, 3]"
  by code_simp

subsection \<open>areCoprimes\<close>

text \<open>
  Every pass of the outer loop runs the same inner loop, so one pass decides the result:
  equal entries at a common position from 1 on give false, otherwise a longer first list
  gives a read past the end of the second, otherwise the result is true.
\<close>

lemma areCoprimes_inner_eq:
  "areCoprimes_inner al bl i =
     (if \<exists>k. i \<le> k \<and> k < length al \<and> k < length bl \<and> al ! k = bl ! k then Inr True
      else if i < length al \<and> length bl < length al then Inl IndexOutOfRange
      else Inr False)"
proof (induction al bl i rule: areCoprimes_inner.induct)
  case (1 al bl i)
  show ?case
  proof (cases "i < length al")
    case False
    then have "areCoprimes_inner al bl i = Inr False"
      by (subst areCoprimes_inner.simps) simp
    moreover have "\<not> (\<exists>k. i \<le> k \<and> k < length al \<and> k < length bl \<and> al ! k = bl ! k)"
      using False by auto
    ultimately show ?thesis using False by simp
  next
    case ia: True
    show ?thesis
    proof (cases "i < length bl")
      case False
      then have "areCoprimes_inner al bl i = Inl IndexOutOfRange"
        using ia by (subst areCoprimes_inner.simps) simp
      moreover have "\<not> (\<exists>k. i \<le> k \<and> k < length al \<and> k < length bl \<and> al ! k = bl ! k)"
        using False by auto
      moreover have "length bl < length al" using ia False by simp
      ultimately show ?thesis using ia by simp
    next
      case ib: True
      show ?thesis
      proof (cases "al ! i = bl ! i")
        case True
        then have "areCoprimes_inner al bl i = Inr True"
          using ia ib by (subst areCoprimes_inner.simps) simp
        moreover have "\<exists>k. i \<le> k \<and> k < length al \<and> k < length bl \<and> al ! k = bl ! k"
          using ia ib True by blast
        ultimately show ?thesis by simp
      next
        case ne: False
        have ex: "(\<exists>k. i \<le> k \<and> k < length al \<and> k < length bl \<and> al ! k = bl ! k)
                = (\<exists>k. i + 1 \<le> k \<and> k < length al \<and> k < length bl \<and> al ! k = bl ! k)"
          (is "?L = ?R")
        proof
          assume ?L
          then obtain k where k: "i \<le> k" "k < length al" "k < length bl" "al ! k = bl ! k"
            by blast
          with ne have "k \<noteq> i" by auto
          with k have "i + 1 \<le> k" by simp
          with k show ?R by blast
        next
          assume ?R
          then obtain k where k: "i + 1 \<le> k" "k < length al" "k < length bl" "al ! k = bl ! k"
            by blast
          then have "i \<le> k" by simp
          with k show ?L by blast
        qed
        have c2: "(i < length al \<and> length bl < length al)
                = (i + 1 < length al \<and> length bl < length al)"
          using ia ib by auto
        have "areCoprimes_inner al bl i = areCoprimes_inner al bl (i + 1)"
          using ia ib ne by (subst areCoprimes_inner.simps) simp
        also have "\<dots> =
          (if \<exists>k. i + 1 \<le> k \<and> k < length al \<and> k < length bl \<and> al ! k = bl ! k then Inr True
           else if i + 1 < length al \<and> length bl < length al then Inl IndexOutOfRange
           else Inr False)"
          using ia ib ne by (intro "1.IH") simp_all
        finally show ?thesis unfolding ex c2 .
      qed
    qed
  qed
qed

lemma areCoprimes_outer_eq:
  "areCoprimes_outer al bl j =
     (if j < length bl then
        (case areCoprimes_inner al bl 1 of
           Inl err \<Rightarrow> Inl err
         | Inr found \<Rightarrow> Inr (\<not> found))
      else Inr True)"
proof (induction al bl j rule: areCoprimes_outer.induct)
  case (1 al bl j)
  show ?case
  proof (cases "j < length bl")
    case False
    then show ?thesis by (subst areCoprimes_outer.simps) simp
  next
    case jb: True
    show ?thesis
    proof (cases "areCoprimes_inner al bl 1")
      case (Inl err)
      then show ?thesis using jb by (subst areCoprimes_outer.simps) simp
    next
      case (Inr found)
      show ?thesis
      proof (cases found)
        case True
        then show ?thesis using jb Inr by (subst areCoprimes_outer.simps) simp
      next
        case False
        have "areCoprimes_outer al bl j = areCoprimes_outer al bl (j + 1)"
          using jb Inr False by (subst areCoprimes_outer.simps) simp
        also have "\<dots> = (if j + 1 < length bl then
            (case areCoprimes_inner al bl 1 of Inl err \<Rightarrow> Inl err | Inr found \<Rightarrow> Inr (\<not> found))
          else Inr True)"
          using jb Inr False by (intro "1.IH") simp_all
        finally show ?thesis using jb Inr False by simp
      qed
    qed
  qed
qed

lemma areCoprimes_lists:
  assumes "a \<noteq> 1" "b \<noteq> 1" "dividerList a = Inr al" "dividerList b = Inr bl" "1 < length bl"
  shows "areCoprimes a b =
     (if \<exists>k. 1 \<le> k \<and> k < length al \<and> k < length bl \<and> al ! k = bl ! k then Inr False
      else if 1 < length al \<and> length bl < length al then Inl IndexOutOfRange
      else Inr True)"
proof -
  have "areCoprimes a b = areCoprimes_outer al bl 1"
    using assms by (simp add: areCoprimes_def and_then_def)
  also have "\<dots> = (case areCoprimes_inner al bl 1 of
                       Inl err \<Rightarrow> Inl err | Inr found \<Rightarrow> Inr (\<not> found))"
    using assms(5) by (simp add: areCoprimes_outer_eq)
  also have "\<dots> =
     (if \<exists>k. 1 \<le> k \<and> k < length al \<and> k < length bl \<and> al ! k = bl ! k then Inr False
      else if 1 < length al \<and> length bl < length al then Inl IndexOutOfRange
      else Inr True)"
    by (auto simp: areCoprimes_inner_eq)
  finally show ?thesis .
qed

lemma divisors_nth_gt_1:
  assumes "1 \<le> k" "k < length (filter (\<lambda>d. d dvd x) [1..x])"
  shows "1 < filter (\<lambda>d. d dvd x) [1..x] ! k"
proof -
  let ?l = "filter (\<lambda>d. d dvd x) [1..x]"
  have s: "sorted_wrt (<) ?l" by (intro sorted_wrt_filter) (simp add: sorted_wrt_upto)
  have "?l ! k \<in> set ?l" using assms(2) by (rule nth_mem)
  then have "1 \<le> ?l ! k" by simp
  moreover have "0 < k" using assms(1) by simp
  with s have "?l ! 0 < ?l ! k" using assms(2) by (rule sorted_wrt_nth_less)
  moreover have "0 < length ?l" using assms(2) by (rule le_less_trans [OF le0])
  then have "?l ! 0 \<in> set ?l" by (rule nth_mem)
  then have "1 \<le> ?l ! 0" by simp
  ultimately show ?thesis by simp
qed

text \<open>An answer false is right: the equal entries are a common divisor above 1.\<close>

lemma areCoprimes_false_sound:
  assumes "areCoprimes a b = Inr False"
  shows "gcd a b \<noteq> 1"
proof -
  from assms have ne: "a \<noteq> 1" "b \<noteq> 1"
    by (auto simp: areCoprimes_def)
  from assms ne obtain al bl where
    l: "dividerList a = Inr al" "dividerList b = Inr bl" "areCoprimes_outer al bl 1 = Inr False"
    by (auto simp: areCoprimes_def and_then_Inr_iff)
  have al: "al = filter (\<lambda>d. d dvd a) [1..a]" using l(1) by (rule dividerList_InrD)
  have bl: "bl = filter (\<lambda>d. d dvd b) [1..b]" using l(2) by (rule dividerList_InrD)
  from l(3) have "areCoprimes_inner al bl 1 = Inr True"
    unfolding areCoprimes_outer_eq by (auto split: if_splits sum.splits)
  then obtain k where k: "1 \<le> k" "k < length al" "k < length bl" "al ! k = bl ! k"
    unfolding areCoprimes_inner_eq by (auto split: if_splits)
  have "al ! k \<in> set al" using k(2) by (rule nth_mem)
  then have da: "al ! k dvd a" unfolding al by simp
  have "bl ! k \<in> set bl" using k(3) by (rule nth_mem)
  then have "bl ! k dvd b" unfolding bl by simp
  then have db: "al ! k dvd b" using k(4) by simp
  have big: "1 < al ! k" using k(1,2) unfolding al by (rule divisors_nth_gt_1)
  from da db have "al ! k dvd gcd a b" by (rule gcd_greatest)
  show ?thesis
  proof
    assume "gcd a b = 1"
    with \<open>al ! k dvd gcd a b\<close> have "al ! k dvd 1" by simp
    with big show False by simp
  qed
qed

text \<open>
  Against 2 the test is right.  Against 3 it is true for every even number, also for
  the multiples of 6: the divisor 2 of the second number sits where the 3 of the first
  is looked for.
\<close>

lemma areCoprimes_2:
  assumes "2 \<le> m" "m \<le> vector_max_size"
  shows "areCoprimes 2 m = Inr (\<not> 2 dvd m)"
proof -
  let ?bl = "filter (\<lambda>k. k dvd m) [1..m]"
  have db: "dividerList m = Inr ?bl" using assms by (intro dividerList_eq) simp_all
  have lb: "2 \<le> length ?bl" using assms(1) by (rule length_divisors_ge2)
  then have lb1: "1 < length ?bl" by simp
  have ne: "(2::int) \<noteq> 1" "m \<noteq> 1" using assms(1) by simp_all
  have ex: "(\<exists>k. 1 \<le> k \<and> k < length [1, 2::int] \<and> k < length ?bl \<and> [1, 2] ! k = ?bl ! k)
          = (?bl ! 1 = 2)"
  proof
    assume "\<exists>k. 1 \<le> k \<and> k < length [1, 2::int] \<and> k < length ?bl \<and> [1, 2] ! k = ?bl ! k"
    then obtain k where k: "1 \<le> k" "k < length [1, 2::int]" "[1, 2] ! k = ?bl ! k" by blast
    then have "k = 1" by simp
    with k(3) show "?bl ! 1 = 2" by simp
  next
    assume "?bl ! 1 = 2"
    with lb1 have "1 \<le> (1::nat) \<and> 1 < length [1, 2::int] \<and> 1 < length ?bl \<and> [1, 2] ! 1 = ?bl ! 1"
      by simp
    then show "\<exists>k. 1 \<le> k \<and> k < length [1, 2::int] \<and> k < length ?bl \<and> [1, 2] ! k = ?bl ! k"
      by blast
  qed
  have "areCoprimes 2 m =
     (if \<exists>k. 1 \<le> k \<and> k < length [1, 2::int] \<and> k < length ?bl \<and> [1, 2] ! k = ?bl ! k
      then Inr False
      else if 1 < length [1, 2::int] \<and> length ?bl < length [1, 2::int] then Inl IndexOutOfRange
      else Inr True)"
    using ne dividerList_2 db lb1 by (rule areCoprimes_lists)
  also have "\<dots> = Inr (\<not> 2 dvd m)"
    unfolding ex divisors_second [OF assms(1)] using lb by simp
  finally show ?thesis .
qed

lemma areCoprimes_3_even:
  assumes "2 \<le> m" "m \<le> vector_max_size" "2 dvd m"
  shows "areCoprimes 3 m = Inr True"
proof -
  let ?bl = "filter (\<lambda>k. k dvd m) [1..m]"
  have db: "dividerList m = Inr ?bl" using assms by (intro dividerList_eq) simp_all
  have lb: "2 \<le> length ?bl" using assms(1) by (rule length_divisors_ge2)
  then have lb1: "1 < length ?bl" by simp
  have ne: "(3::int) \<noteq> 1" "m \<noteq> 1" using assms(1) by simp_all
  have b1: "?bl ! 1 = 2" using assms(3) divisors_second [OF assms(1)] by simp
  have ex: "\<not> (\<exists>k. 1 \<le> k \<and> k < length [1, 3::int] \<and> k < length ?bl \<and> [1, 3] ! k = ?bl ! k)"
  proof
    assume "\<exists>k. 1 \<le> k \<and> k < length [1, 3::int] \<and> k < length ?bl \<and> [1, 3] ! k = ?bl ! k"
    then obtain k where k: "1 \<le> k" "k < length [1, 3::int]" "[1, 3] ! k = ?bl ! k" by blast
    then have "k = 1" by simp
    with k(3) b1 show False by simp
  qed
  have "areCoprimes 3 m =
     (if \<exists>k. 1 \<le> k \<and> k < length [1, 3::int] \<and> k < length ?bl \<and> [1, 3] ! k = ?bl ! k
      then Inr False
      else if 1 < length [1, 3::int] \<and> length ?bl < length [1, 3::int] then Inl IndexOutOfRange
      else Inr True)"
    using ne dividerList_3 db lb1 by (rule areCoprimes_lists)
  also have "\<dots> = Inr True" using ex lb by simp
  finally show ?thesis .
qed

subsection \<open>phi and the scan of publicKey\<close>

lemma phi_InrD:
  assumes "phi n p q = Inr m"
  shows "ll (p * q) = Inr n \<and> both_prime p q = Inr True"
proof -
  from assms obtain pq primes where
    a: "ll (p * q) = Inr pq" "pq = n" "both_prime p q = Inr primes" "primes"
    unfolding phi_def and_then_Inr_iff assert_Inr_iff by blast
  then show ?thesis by simp
qed

lemma phi_product_mismatch:
  "ll (p * q) = Inr pq \<Longrightarrow> pq \<noteq> n \<Longrightarrow> phi n p q = Inl AssertionFailed"
  by (simp add: phi_def and_then_def assert_def)

lemma publicKey_isPrime_false:
  "isPrime p = Inr False \<Longrightarrow> publicKey p q = Inl AssertionFailed"
  by (simp add: publicKey_def both_prime_def and_then_def assert_def)

lemma privateKey_isPrime_false:
  "isPrime p = Inr False \<Longrightarrow> privateKey p q key = Inl AssertionFailed"
  by (simp add: privateKey_def both_prime_def and_then_def assert_def)

lemma publicKey_scan_none:
  "\<forall>i. 2 \<le> i \<and> i < m \<longrightarrow> areCoprimes i m = Inr False \<Longrightarrow> 2 \<le> j \<Longrightarrow>
   publicKey_scan m j = Inr 0"
proof (induction m j rule: publicKey_scan.induct)
  case (1 m j)
  show ?case
  proof (cases "j < m")
    case False
    then show ?thesis by (subst publicKey_scan.simps) simp
  next
    case True
    from "1.prems"(1) have "2 \<le> j \<and> j < m \<longrightarrow> areCoprimes j m = Inr False" by (rule spec)
    with True "1.prems"(2) have f: "areCoprimes j m = Inr False" by simp
    have "publicKey_scan m j = publicKey_scan m (j + 1)"
      using True f by (subst publicKey_scan.simps) simp
    also have "\<dots> = Inr 0"
      using "1.IH" [OF True f] "1.prems" by simp
    finally show ?thesis .
  qed
qed

lemma no_coprime_exponent_small:
  fixes m :: int
  assumes "\<forall>i. 2 \<le> i \<and> i < m \<longrightarrow> gcd i m \<noteq> 1"
  shows "m \<le> 2"
proof (rule ccontr)
  assume "\<not> m \<le> 2"
  then have "2 \<le> m - 1 \<and> m - 1 < m" by simp
  moreover from assms have "2 \<le> m - 1 \<and> m - 1 < m \<longrightarrow> gcd (m - 1) m \<noteq> 1"
    by (rule spec)
  ultimately have "gcd (m - 1) m \<noteq> 1" by simp
  moreover have "coprime (m - 1) m" by (rule coprime_diff_one_left)
  ultimately show False by (simp add: coprime_iff_gcd_eq_1)
qed

text \<open>
  A scan that finds nothing leaves \<open>e = 0\<close> in the returned key.
\<close>

lemma publicKey_scan_finds_nothing:
  assumes "phi (p * q) p q = Inr m"
    and "(\<forall>i. 2 \<le> i \<and> i < m \<longrightarrow> gcd i m \<noteq> 1)
       \<or> (\<forall>i. 2 \<le> i \<and> i < m \<longrightarrow> areCoprimes i m = Inr False)"
  shows "publicKey p q = Inr \<lparr>pub_n = p * q, pub_e = 0\<rparr>"
proof -
  have scan: "publicKey_scan m 2 = Inr 0"
    using assms(2)
  proof
    assume "\<forall>i. 2 \<le> i \<and> i < m \<longrightarrow> gcd i m \<noteq> 1"
    then have "m \<le> 2" by (rule no_coprime_exponent_small)
    then show ?thesis by (subst publicKey_scan.simps) simp
  next
    assume "\<forall>i. 2 \<le> i \<and> i < m \<longrightarrow> areCoprimes i m = Inr False"
    then show ?thesis by (rule publicKey_scan_none) simp
  qed
  from phi_InrD [OF assms(1)]
  have "ll (p * q) = Inr (p * q)" and "both_prime p q = Inr True" by simp_all
  then show ?thesis using assms(1) scan
    unfolding publicKey_def by (simp add: and_then_def assert_def)
qed

text \<open>
  The scan never gets past 3: it returns 0 for a totient up to 2, 2 for an odd totient
  and 3 for an even one.
\<close>

lemma publicKey_scan_eq:
  assumes "m \<le> vector_max_size"
  shows "publicKey_scan m 2 = Inr (if m \<le> 2 then 0 else if odd m then 2 else 3)"
proof (cases "m \<le> 2")
  case True
  then show ?thesis by (subst publicKey_scan.simps) simp
next
  case False
  then have m3: "3 \<le> m" by simp
  then have a2: "areCoprimes 2 m = Inr (odd m)" using assms by (intro areCoprimes_2) simp_all
  show ?thesis
  proof (cases "odd m")
    case True
    then show ?thesis using m3 a2 by (subst publicKey_scan.simps) simp
  next
    case even: False
    with m3 have m4: "4 \<le> m" by presburger
    have a3: "areCoprimes 3 m = Inr True"
      using m3 assms even by (intro areCoprimes_3_even) simp_all
    have "publicKey_scan m 2 = publicKey_scan m (2 + 1)"
      using m3 a2 even by (subst publicKey_scan.simps) simp
    also have "\<dots> = Inr 3"
      using m4 a3 by (subst publicKey_scan.simps) simp
    finally show ?thesis using False even by simp
  qed
qed

lemma publicKey_exponent:
  assumes "phi (p * q) p q = Inr m" "m \<le> vector_max_size"
  shows "publicKey p q =
           Inr \<lparr>pub_n = p * q, pub_e = (if m \<le> 2 then 0 else if odd m then 2 else 3)\<rparr>"
proof -
  from phi_InrD [OF assms(1)]
  have "ll (p * q) = Inr (p * q)" and "both_prime p q = Inr True" by simp_all
  then show ?thesis using assms(1) publicKey_scan_eq [OF assms(2)]
    unfolding publicKey_def by (simp add: and_then_def assert_def)
qed

subsection \<open>power\<close>

lemma ll_out_of_range: "9223372036854775808 < \<bar>v\<bar> \<Longrightarrow> ll v = Inl SignedOverflow"
  by (simp add: ll_def LLONG_MIN_def LLONG_MAX_def) linarith

lemma ll_in_range_abs: "ll v = Inl SignedOverflow \<Longrightarrow> 9223372036854775808 \<le> \<bar>v\<bar>"
  by (simp add: ll_def LLONG_MIN_def LLONG_MAX_def split: if_splits) linarith

lemma power_overflow_persists:
  fixes x :: int
  assumes "ll (x ^ a) = Inl SignedOverflow" "a \<le> b"
  shows "ll (x ^ b) = Inl SignedOverflow"
proof (cases "a = b")
  case True
  with assms(1) show ?thesis by simp
next
  case False
  with assms(2) obtain k where k: "b = a + k" "0 < k" by (metis le_Suc_ex neq0_conv add.right_neutral)
  from assms(1) have va: "9223372036854775808 \<le> \<bar>x ^ a\<bar>" by (rule ll_in_range_abs)
  have "2 \<le> \<bar>x\<bar>"
  proof (rule ccontr)
    assume "\<not> 2 \<le> \<bar>x\<bar>"
    then have "\<bar>x\<bar> \<le> 1" by simp
    then have "\<bar>x\<bar> ^ a \<le> 1" by (intro power_le_one) simp_all
    with va show False by (simp add: power_abs)
  qed
  then have "2 ^ 1 \<le> \<bar>x\<bar> ^ 1" by simp
  also have "\<bar>x\<bar> ^ 1 \<le> \<bar>x\<bar> ^ k"
    using \<open>2 \<le> \<bar>x\<bar>\<close> k(2) by (intro power_increasing) simp_all
  finally have xk: "2 \<le> \<bar>x ^ k\<bar>" by (simp add: power_abs)
  have "9223372036854775808 * 2 \<le> \<bar>x ^ a\<bar> * \<bar>x ^ k\<bar>"
    using va xk by (intro mult_mono) simp_all
  then have "9223372036854775808 < \<bar>x ^ b\<bar>"
    unfolding k(1) by (simp add: power_add abs_mult)
  then show ?thesis by (rule ll_out_of_range)
qed

lemma power_loop_eq:
  "1 \<le> i \<Longrightarrow> i \<le> e \<Longrightarrow> r = x ^ nat i \<Longrightarrow> ll r = Inr r \<Longrightarrow>
   power_loop x e i r = ll (x ^ nat e)"
proof (induction x e i r rule: power_loop.induct)
  case (1 x e i r)
  note i1 = \<open>1 \<le> i\<close> and ie = \<open>i \<le> e\<close> and r = \<open>r = x ^ nat i\<close> and lr = \<open>ll r = Inr r\<close>
  show ?case
  proof (cases "i < e")
    case False
    with ie have "i = e" by simp
    moreover have "power_loop x e i r = Inr r"
      using False by (subst power_loop.simps) simp
    ultimately show ?thesis using r lr by simp
  next
    case True
    have "nat (i + 1) = Suc (nat i)" using i1 by simp
    then have "x ^ nat (i + 1) = x ^ nat i * x" by simp
    then have rx: "r * x = x ^ nat (i + 1)" unfolding r by simp
    show ?thesis
    proof (cases "ll (r * x)")
      case (Inr r')
      then have r': "r' = r * x" by (simp add: ll_def split: if_splits)
      have a: "1 \<le> i + 1" "i + 1 \<le> e" using i1 True by simp_all
      have b: "r' = x ^ nat (i + 1)" unfolding r' by (rule rx)
      have c: "ll r' = Inr r'" using Inr unfolding r' .
      have "power_loop x e i r = power_loop x e (i + 1) r'"
        using True Inr by (subst power_loop.simps) simp
      also have "\<dots> = ll (x ^ nat e)"
        by (rule "1.IH" [OF True Inr a b c])
      finally show ?thesis .
    next
      case (Inl err)
      then have err: "ll (r * x) = Inl SignedOverflow" by (simp add: ll_def split: if_splits)
      have "power_loop x e i r = Inl SignedOverflow"
        using True err by (subst power_loop.simps) simp
      moreover have "nat (i + 1) \<le> nat e" using True by simp
      with err have "ll (x ^ nat e) = Inl SignedOverflow"
        unfolding rx by (rule power_overflow_persists)
      ultimately show ?thesis by simp
    qed
  qed
qed

text \<open>
  \<open>power\<close> on a \<open>long long int\<close> base: the mathematical power when it is representable,
  an overflow otherwise; the base itself for a negative exponent.
\<close>

lemma power_eq:
  assumes "ll x = Inr x"
  shows "power x e = (if e = 0 then Inr 1 else if e < 0 then Inr x else ll (x ^ nat e))"
proof (cases "e \<le> 0")
  case True
  then show ?thesis unfolding power_def by (subst power_loop.simps) simp
next
  case False
  then have "power_loop x e 1 x = ll (x ^ nat e)"
    using assms by (intro power_loop_eq) simp_all
  then show ?thesis using False by (simp add: power_def)
qed

section \<open>Properties of the floating-point model\<close>

lemma pow2_pos: "0 < pow2 k"
  by (simp add: pow2_def)

lemma pow2_of_nat: "pow2 (int n) = 2 ^ n"
  by (simp add: pow2_def)

lemma pow2_minus_of_nat: "pow2 (- int n) = 1 / 2 ^ n"
  by (cases "n = 0") (simp_all add: pow2_def)

lemma pow2_Suc: "pow2 (k + 1) = 2 * pow2 k"
proof (cases "0 \<le> k")
  case True
  then have "nat (k + 1) = Suc (nat k)" by simp
  then show ?thesis using True by (simp add: pow2_def)
next
  case False
  then have "nat (- k) = Suc (nat (- (k + 1)))" by simp
  then show ?thesis using False by (simp add: pow2_def)
qed

lemma ilog2_bounds: "0 < n \<Longrightarrow> 2 ^ ilog2 n \<le> n \<and> n < 2 ^ (ilog2 n + 1)"
proof (induction n rule: ilog2.induct)
  case (1 n)
  show ?case
  proof (cases "n < 2")
    case True
    with "1.prems" have "n = 1" by simp
    then show ?thesis by (subst (1 2) ilog2.simps) simp
  next
    case False
    then have "0 < n div 2" by simp
    with "1.IH" False have ih: "2 ^ ilog2 (n div 2) \<le> n div 2" "n div 2 < 2 ^ (ilog2 (n div 2) + 1)"
      by simp_all
    have il: "ilog2 n = Suc (ilog2 (n div 2))" using False by (subst ilog2.simps) simp
    from ih show ?thesis unfolding il by simp linarith
  qed
qed

lemma floor_ilog2_bounds:
  fixes y :: rat
  assumes "1 \<le> y"
  shows "2 ^ ilog2 (nat \<lfloor>y\<rfloor>) \<le> y \<and> y < 2 ^ (ilog2 (nat \<lfloor>y\<rfloor>) + 1)"
proof -
  let ?n = "nat \<lfloor>y\<rfloor>"
  have f1: "1 \<le> \<lfloor>y\<rfloor>" using assms by simp
  then have n: "0 < ?n" by simp
  from ilog2_bounds [OF n] have b: "2 ^ ilog2 ?n \<le> ?n" "?n + 1 \<le> 2 ^ (ilog2 ?n + 1)"
    by simp_all
  have "(of_nat ?n :: rat) = of_int \<lfloor>y\<rfloor>" using f1 by simp
  then have ny: "of_nat ?n \<le> y" "y < of_nat (?n + 1)" by (simp_all add: floor_less_cancel)
  have "(2::rat) ^ ilog2 ?n = of_nat (2 ^ ilog2 ?n)" by simp
  also have "\<dots> \<le> of_nat ?n" using b(1) by (simp only: of_nat_le_iff)
  finally have "(2::rat) ^ ilog2 ?n \<le> of_nat ?n" .
  then have lo: "2 ^ ilog2 ?n \<le> y" using ny(1) by (rule order_trans)
  have "y < of_nat (?n + 1)" by (rule ny(2))
  also have "(of_nat (?n + 1) :: rat) \<le> of_nat (2 ^ (ilog2 ?n + 1))"
    using b(2) by (simp only: of_nat_le_iff)
  finally have "y < 2 ^ (ilog2 ?n + 1)" by simp
  with lo show ?thesis ..
qed

text \<open>\<open>binade\<close> is the binary exponent.\<close>

lemma binade_bounds:
  assumes "x \<noteq> 0"
  shows "pow2 (binade x) \<le> \<bar>x\<bar> \<and> \<bar>x\<bar> < pow2 (binade x + 1)"
proof (cases "1 \<le> \<bar>x\<bar>")
  case True
  then have b: "binade x = int (ilog2 (nat \<lfloor>\<bar>x\<bar>\<rfloor>))" by (simp add: binade_def)
  from floor_ilog2_bounds [OF True] show ?thesis
    unfolding b pow2_Suc pow2_of_nat by simp
next
  case False
  define y where "y = 1 / \<bar>x\<bar>"
  define j where "j = ilog2 (nat \<lfloor>y\<rfloor>)"
  have xpos: "0 < \<bar>x\<bar>" using assms by simp
  have y1: "1 \<le> y" using False xpos by (simp add: y_def)
  from floor_ilog2_bounds [OF y1] have yb: "2 ^ j \<le> y" "y < 2 ^ (j + 1)" by (simp_all add: j_def)
  have x_eq: "\<bar>x\<bar> = 1 / y" using xpos by (simp add: y_def)
  have ypos: "0 < y" using y1 by simp
  have hi: "\<bar>x\<bar> \<le> 1 / 2 ^ j"
    unfolding x_eq using yb(1) ypos by (simp add: frac_le)
  have lo: "1 / 2 ^ (j + 1) < \<bar>x\<bar>"
    unfolding x_eq using yb(2) ypos by (simp add: frac_less2)
  show ?thesis
  proof (cases "\<bar>x\<bar> = pow2 (- int j)")
    case True
    then have b: "binade x = - int j" using False by (simp add: binade_def Let_def y_def j_def)
    have "pow2 (- int j + 1) = 2 * pow2 (- int j)" by (rule pow2_Suc)
    then show ?thesis unfolding b using True pow2_pos [of "- int j"] by simp
  next
    case ne: False
    then have b: "binade x = - int j - 1" using False by (simp add: binade_def Let_def y_def j_def)
    have e: "- int j - 1 = - int (j + 1)" by simp
    have p1: "pow2 (- int j - 1) = 1 / 2 ^ (j + 1)"
      unfolding e by (rule pow2_minus_of_nat)
    have p2: "pow2 (- int j - 1 + 1) = 1 / 2 ^ j" by (simp add: pow2_minus_of_nat)
    from ne hi have "\<bar>x\<bar> < 1 / 2 ^ j" by (simp add: pow2_minus_of_nat)
    with lo show ?thesis unfolding b p1 p2 by simp
  qed
qed

text \<open>\<open>fl\<close> moves its argument by at most half a unit in the last place.\<close>

lemma round_half_even_error: "\<bar>of_int (round_half_even r) - r\<bar> \<le> 1 / 2"
proof -
  have "of_int \<lfloor>r\<rfloor> \<le> r" "r < of_int \<lfloor>r\<rfloor> + 1" by linarith+
  then show ?thesis by (auto simp: round_half_even_def Let_def)
qed

lemma fl_error:
  assumes "x \<noteq> 0"
  shows "\<bar>fl prec x - x\<bar> \<le> pow2 (binade x - int prec + 1) / 2"
proof -
  define u where "u = pow2 (binade x - int prec + 1)"
  have u: "0 < u" unfolding u_def by (rule pow2_pos)
  have "fl prec x - x = (of_int (round_half_even (x / u)) - x / u) * u"
    using assms u by (simp add: fl_def Let_def u_def algebra_simps)
  then have "\<bar>fl prec x - x\<bar> = \<bar>of_int (round_half_even (x / u)) - x / u\<bar> * u"
    using u by (simp add: abs_mult)
  also have "\<dots> \<le> (1 / 2) * u"
    using round_half_even_error [of "x / u"] u by (intro mult_right_mono) simp_all
  finally show ?thesis by (simp add: u_def)
qed

lemma pow2_add_nat: "pow2 (a + int n) = pow2 a * 2 ^ n"
proof (induction n)
  case 0
  show ?case by simp
next
  case (Suc n)
  have "a + int (Suc n) = (a + int n) + 1" by simp
  then have "pow2 (a + int (Suc n)) = pow2 ((a + int n) + 1)" by (rule arg_cong)
  also have "\<dots> = 2 * pow2 (a + int n)" by (rule pow2_Suc)
  finally show ?case using Suc by simp
qed

lemma pow2_mono: "a \<le> b \<Longrightarrow> pow2 a \<le> pow2 b"
proof -
  assume "a \<le> b"
  then obtain n where b: "b = a + int n" by (metis zle_iff_zadd)
  have "pow2 a * 1 \<le> pow2 a * 2 ^ n"
    using pow2_pos [of a] by (intro mult_left_mono) simp_all
  then show ?thesis unfolding b pow2_add_nat by simp
qed

lemma pow2_less_imp_less: "pow2 a < pow2 b \<Longrightarrow> a < b"
  using pow2_mono [of b a] by (cases "a < b") simp_all

lemma binade_unique:
  assumes "pow2 g \<le> \<bar>x\<bar>" "\<bar>x\<bar> < pow2 (g + 1)"
  shows "binade x = g"
proof -
  have "x \<noteq> 0" using assms(1) pow2_pos [of g] by auto
  from binade_bounds [OF this]
  have b: "pow2 (binade x) \<le> \<bar>x\<bar>" "\<bar>x\<bar> < pow2 (binade x + 1)" by simp_all
  from b(1) assms(2) have "pow2 (binade x) < pow2 (g + 1)" by simp
  then have "binade x < g + 1" by (rule pow2_less_imp_less)
  moreover from assms(1) b(2) have "pow2 g < pow2 (binade x + 1)" by simp
  then have "g < binade x + 1" by (rule pow2_less_imp_less)
  ultimately show ?thesis by simp
qed

lemma round_half_even_of_int: "round_half_even (of_int m) = m"
  by (simp add: round_half_even_def)

lemma round_half_even_shift:
  assumes "even K"
  shows "round_half_even (of_int K + y) = K + round_half_even y"
proof -
  have f: "\<lfloor>of_int K + y\<rfloor> = K + \<lfloor>y\<rfloor>" by simp
  have e: "even (K + \<lfloor>y\<rfloor>) = even \<lfloor>y\<rfloor>" using assms by simp
  show ?thesis unfolding round_half_even_def Let_def f e by simp
qed

lemma round_half_even_bounds:
  "r - 1 / 2 \<le> of_int (round_half_even r)" "of_int (round_half_even r) \<le> r + 1 / 2"
  using round_half_even_error [of r] by linarith+

lemma round_half_even_strict_mono:
  assumes "a + 1 < b"
  shows "round_half_even a < round_half_even b"
proof -
  have "of_int (round_half_even a) \<le> a + 1 / 2" by (rule round_half_even_bounds)
  also have "\<dots> < b - 1 / 2" using assms by simp
  also have "\<dots> \<le> of_int (round_half_even b)" by (rule round_half_even_bounds)
  finally show ?thesis by simp
qed

text \<open>
  A number \<open>n + y\<close> with \<open>n\<close> an integer in \<open>[2^g, 2^(g+1))\<close>, \<open>g \<le> 52\<close>, and
  \<open>0 \<le> y < 1\<close> rounds, as a \<open>double\<close>, to \<open>n\<close> plus the rounding of \<open>y\<close> to a multiple
  of \<open>2^(g - 52)\<close>.
\<close>

lemma fl53_integer_plus:
  fixes n :: int and y :: rat
  assumes g: "2 ^ g \<le> n" "n < 2 ^ (g + 1)" and J: "g + J = 52" and Jpos: "0 < J"
    and y: "0 \<le> y" "y < 1"
  shows "fl 53 (of_int n + y) = of_int n + of_int (round_half_even (y * 2 ^ J)) / 2 ^ J"
proof -
  let ?x = "of_int n + y :: rat"
  have npos: "0 < n"
  proof -
    have "(0::int) < 2 ^ g" by simp
    with g(1) show ?thesis by linarith
  qed
  have xpos: "0 < ?x" using npos y(1) by (simp add: add_pos_nonneg)
  have lo: "pow2 (int g) \<le> \<bar>?x\<bar>"
  proof -
    have "(2::rat) ^ g = of_int (2 ^ g)" by simp
    also have "\<dots> \<le> of_int n" using g(1) by (simp only: of_int_le_iff)
    also have "\<dots> \<le> ?x" using y(1) by simp
    finally show ?thesis using xpos by (simp add: pow2_of_nat)
  qed
  have hi: "\<bar>?x\<bar> < pow2 (int g + 1)"
  proof -
    have "n + 1 \<le> 2 ^ (g + 1)" using g(2) by simp
    then have "(of_int (n + 1) :: rat) \<le> of_int (2 ^ (g + 1))" by (simp only: of_int_le_iff)
    then have "(of_int n :: rat) + 1 \<le> 2 ^ (g + 1)" by simp
    with y(2) have "?x < 2 ^ (g + 1)" by simp
    moreover have "pow2 (int g + 1) = 2 ^ (g + 1)"
      using pow2_of_nat [of "g + 1"] by (simp add: add.commute)
    ultimately show ?thesis using xpos by simp
  qed
  have b: "binade ?x = int g" using lo hi by (rule binade_unique)
  have "int g - int 53 + 1 = - int J" using J by simp
  then have u: "pow2 (binade ?x - int 53 + 1) = 1 / 2 ^ J"
    unfolding b by (simp only: pow2_minus_of_nat)
  have "?x / (1 / 2 ^ J) = of_int (n * 2 ^ J) + y * 2 ^ J"
    by (simp add: algebra_simps)
  moreover have "even (n * 2 ^ J)" using Jpos by simp
  ultimately have r: "round_half_even (?x / (1 / 2 ^ J))
                    = n * 2 ^ J + round_half_even (y * 2 ^ J)"
    by (simp only: round_half_even_shift)
  have "fl 53 ?x = of_int (round_half_even (?x / (1 / 2 ^ J))) * (1 / 2 ^ J)"
    using xpos unfolding fl_def Let_def u by simp
  also have "\<dots> = of_int n + of_int (round_half_even (y * 2 ^ J)) / 2 ^ J"
    unfolding r by (simp add: field_simps)
  finally show ?thesis .
qed

lemma int_binade_ex:
  fixes n :: int
  assumes "1 \<le> n" "n < 2 ^ 52"
  obtains g J :: nat where "2 ^ g \<le> n" "n < 2 ^ (g + 1)" "g + J = 52" "0 < J"
proof -
  define g where "g = ilog2 (nat n)"
  have "0 < nat n" using assms(1) by simp
  from ilog2_bounds [OF this]
  have b: "2 ^ g \<le> nat n" "nat n < 2 ^ (g + 1)" by (simp_all add: g_def)
  have lo: "2 ^ g \<le> n"
  proof -
    from b(1) have "int (2 ^ g) \<le> int (nat n)" by (simp only: of_nat_le_iff)
    then show ?thesis using assms(1) by simp
  qed
  have hi: "n < 2 ^ (g + 1)"
  proof -
    from b(2) have "int (nat n) < int (2 ^ (g + 1))" by (simp only: of_nat_less_iff)
    then show ?thesis using assms(1) by simp
  qed
  from lo assms(2) have "(2::int) ^ g < 2 ^ 52" by simp
  then have "g < 52" by (rule power_less_imp_less_exp [rotated]) simp
  then have "g + (52 - g) = 52" "0 < 52 - g" by simp_all
  with lo hi show ?thesis by (rule that)
qed

lemma fl53_of_int:
  assumes "1 \<le> n" "n < 2 ^ 52"
  shows "fl 53 (of_int n) = of_int n"
proof -
  from assms obtain g J :: nat
    where g: "2 ^ g \<le> n" "n < 2 ^ (g + 1)" "g + J = 52" "0 < J"
    by (rule int_binade_ex)
  have "fl 53 (of_int n + 0) = of_int n + of_int (round_half_even (0 * 2 ^ J)) / 2 ^ J"
    using g by (rule fl53_integer_plus) simp_all
  then show ?thesis by (simp add: round_half_even_def)
qed

subsection \<open>Evaluation at numerals\<close>

lemma floor_rat_numeral_div:
  "\<lfloor>numeral a / numeral b :: rat\<rfloor> = numeral a div numeral b"
  using floor_divide_of_int_eq [of "numeral a" "numeral b", where ?'a = rat] by simp

text \<open>The rules that evaluate \<open>fl\<close> at a numeral.\<close>

lemmas fl_eval = fl_def binade_def pow2_def round_half_even_def ilog2.simps Let_def
  floor_rat_numeral_div

lemma fl24_third: "fl 24 (1 / 3) = 11184811 / 33554432"
  by (simp add: fl_eval)

lemma fl53_20_thirds: "fl 53 (20 / 3) = 7505999378950827 / 1125899906842624"
  by (simp add: fl_eval)

lemma fl_small_integers: "fl 24 3 = 3" "fl 53 20 = 20" "fl 53 3 = 3" "fl 53 1 = 1" "fl 53 7 = 7"
  by (simp_all add: fl_eval)

lemma epsilon_value: "epsilon = 13743895 / 137438953472"
  by (simp add: epsilon_def fl_eval)

lemma fl53_exact_a:
  "fl 53 (7505999378950827 / 1125899906842624) = 7505999378950827 / 1125899906842624"
  by (simp add: fl_eval)

lemma fl53_exact_b:
  "fl 53 (7881299359083179 / 1125899906842624) = 7881299359083179 / 1125899906842624"
  by (simp add: fl_eval)

lemma fl53_exact_c:
  "fl 53 (962086418199 / 137438953472) = 962086418199 / 137438953472"
  by (simp add: fl_eval)

lemma fl53_24_and_8: "fl 53 24 = 24" "fl 53 8 = 8"
  by (simp_all add: fl_eval)

subsection \<open>The search of privateKey for the key of 3 and 11\<close>

text \<open>
  With \<open>e = 3\<close> and the totient 20 the first candidate \<open>k = 1\<close> gives
  \<open>temp_d = fl (1 / 3) + 1 * fl (20 / 3)\<close>, slightly above 7, and the test
  \<open>temp_d \<le> 7 + epsilon\<close> holds.
\<close>

lemma temp_d_at_3_20_1: "temp_d_at 3 20 1 = 7881299359083179 / 1125899906842624"
  by (simp add: temp_d_at_def fl_small_integers fl24_third fl53_20_thirds fl53_exact_a fl53_exact_b)

lemma privateKey_loop_3_20: "privateKey_loop 3 20 1 = Inr 7"
  by (subst privateKey_loop.simps)
     (simp add: temp_d_at_3_20_1 double_to_ll_def floor_rat_numeral_div LLONG_MIN_def
        LLONG_MAX_def epsilon_value fl_small_integers fl53_exact_c)

lemma privateKey_3_11:
  "privateKey 3 11 \<lparr>pub_n = 33, pub_e = 3\<rparr> = Inr \<lparr>priv_p = 3, priv_q = 11, priv_d = 7\<rparr>"
proof -
  have "both_prime 3 11 = Inr True" by code_simp
  moreover have "phi 33 3 11 = Inr 20" by code_simp
  ultimately show ?thesis
    by (simp add: privateKey_def and_then_def assert_def privateKey_loop_3_20)
qed

subsection \<open>The search of privateKey for the key of 5 and 7\<close>

text \<open>
  With \<open>e = 3\<close> and the totient 24 the candidates are \<open>temp_d = fl (fl (1 / 3) + 8 * k)\<close>.
  As long as \<open>8 * k\<close> is below \<open>2^52\<close> the sum keeps a fraction between 0 and 1 that is
  larger than the rounded \<open>epsilon\<close>, and the candidate is rejected.  At \<open>k = 2^49\<close>
  the spacing of the \<open>double\<close> numbers is 1, the fraction is rounded away, and
  \<open>temp_d = 2^52\<close> is accepted.
\<close>

lemma temp_d_at_3_24:
  assumes "1 \<le> k" "k < 2 ^ 49"
  shows "temp_d_at 3 24 k = fl 53 (of_int (8 * k) + 11184811 / 33554432)"
proof -
  have k52: "k < 2 ^ 52" using assms(2) by simp
  have n: "1 \<le> 8 * k" "8 * k < 2 ^ 52" using assms by simp_all
  have a: "fl 24 (1 / fl 24 (of_int 3)) = 11184811 / 33554432"
    by (simp add: fl_small_integers fl24_third)
  have b: "fl 53 (fl 53 (of_int 24) / fl 53 (of_int 3)) = 8"
    by (simp add: fl_small_integers fl53_24_and_8)
  have "fl 53 (of_int k) * 8 = (of_int (8 * k) :: rat)"
    unfolding fl53_of_int [OF assms(1) k52] by simp
  then have c: "fl 53 (fl 53 (of_int k) * 8) = of_int (8 * k)"
    using fl53_of_int [OF n] by (simp only:)
  show ?thesis
    unfolding temp_d_at_def a b c by (simp only: add.commute)
qed

lemma rounded_fractions:
  fixes J :: nat
  assumes "0 < J"
  shows "round_half_even (13743895 / 137438953472 * 2 ^ J)
           < round_half_even (11184811 / 33554432 * 2 ^ J)"
    and "0 < round_half_even (11184811 / 33554432 * 2 ^ J)"
    and "of_int (round_half_even (11184811 / 33554432 * 2 ^ J)) / 2 ^ J < (1::rat)"
proof -
  let ?c = "11184811 / 33554432 :: rat"
  let ?e = "13743895 / 137438953472 :: rat"
  have two: "(2::rat) \<le> 2 ^ J"
    using assms self_le_power [of "2::rat" J] by simp
  show "round_half_even (?e * 2 ^ J) < round_half_even (?c * 2 ^ J)"
  proof (cases "J = 1")
    case True
    then show ?thesis by (simp add: round_half_even_def Let_def floor_rat_numeral_div)
  next
    case False
    with assms have "2 \<le> J" by simp
    then have "(2::rat) ^ 2 \<le> 2 ^ J" by (intro power_increasing) simp_all
    then have four: "(4::rat) \<le> 2 ^ J" by simp
    have "1 < (?c - ?e) * 4" by simp
    also have "\<dots> \<le> (?c - ?e) * 2 ^ J" using four by (intro mult_left_mono) simp_all
    finally have "?e * 2 ^ J + 1 < ?c * 2 ^ J" by (simp add: algebra_simps)
    then show ?thesis by (rule round_half_even_strict_mono)
  qed
  have "0 < ?c * 2 - 1 / 2" by simp
  also have "?c * 2 - 1 / 2 \<le> ?c * 2 ^ J - 1 / 2" using two by simp
  also have "\<dots> \<le> of_int (round_half_even (?c * 2 ^ J))" by (rule round_half_even_bounds)
  finally have "(0::rat) < of_int (round_half_even (?c * 2 ^ J))" .
  then show "0 < round_half_even (?c * 2 ^ J)" by simp
  have "of_int (round_half_even (?c * 2 ^ J)) \<le> ?c * 2 ^ J + 1 / 2"
    by (rule round_half_even_bounds)
  also have "\<dots> < 2 ^ J"
  proof -
    have "?c * 2 ^ J + 1 / 2 \<le> ?c * 2 ^ J + (1 / 4) * 2 ^ J" using two by simp
    also have "\<dots> = (?c + 1 / 4) * 2 ^ J" by (simp add: algebra_simps)
    also have "\<dots> < 1 * 2 ^ J" by (intro mult_strict_right_mono) simp_all
    finally show ?thesis by simp
  qed
  finally show "of_int (round_half_even (?c * 2 ^ J)) / 2 ^ J < (1::rat)"
    by (simp add: divide_less_eq)
qed

lemma privateKey_loop_3_24_reject:
  assumes "1 \<le> k" "k < 2 ^ 49"
  shows "privateKey_loop 3 24 k = privateKey_loop 3 24 (k + 1)"
proof -
  define n where "n = 8 * k"
  have n: "1 \<le> n" "n < 2 ^ 52" using assms by (simp_all add: n_def)
  from n obtain g J :: nat
    where g: "2 ^ g \<le> n" "n < 2 ^ (g + 1)" "g + J = 52" "0 < J"
    by (rule int_binade_ex)
  define Rc where "Rc = round_half_even (11184811 / 33554432 * 2 ^ J)"
  define Re where "Re = round_half_even (13743895 / 137438953472 * 2 ^ J)"
  from rounded_fractions [OF g(4)]
  have R: "Re < Rc" "0 < Rc" "of_int Rc / 2 ^ J < (1::rat)"
    by (simp_all add: Rc_def Re_def)
  have "fl 53 (of_int n + 11184811 / 33554432)
      = of_int n + of_int (round_half_even (11184811 / 33554432 * 2 ^ J)) / 2 ^ J"
    using g by (rule fl53_integer_plus) simp_all
  then have td: "temp_d_at 3 24 k = of_int n + of_int Rc / 2 ^ J"
    unfolding temp_d_at_3_24 [OF assms] n_def Rc_def .
  have fr: "(0::rat) \<le> of_int Rc / 2 ^ J" using R(2) by simp
  have nonneg: "0 \<le> temp_d_at 3 24 k" unfolding td using n(1) fr by simp
  have "\<lfloor>of_int Rc / 2 ^ J :: rat\<rfloor> = 0" using fr R(3) by (simp add: floor_eq_iff)
  then have fl_t: "\<lfloor>temp_d_at 3 24 k\<rfloor> = n" unfolding td by simp
  have dl: "double_to_ll (temp_d_at 3 24 k) = Inr n"
    using nonneg fl_t n by (simp add: double_to_ll_def LLONG_MIN_def LLONG_MAX_def)
  have "fl 53 (of_int n + 13743895 / 137438953472)
      = of_int n + of_int (round_half_even (13743895 / 137438953472 * 2 ^ J)) / 2 ^ J"
    using g by (rule fl53_integer_plus) simp_all
  then have rhs: "fl 53 (fl 53 (of_int n) + epsilon) = of_int n + of_int Re / 2 ^ J"
    unfolding fl53_of_int [OF n] epsilon_value Re_def .
  have "(of_int Re :: rat) < of_int Rc" using R(1) by simp
  then have "(of_int Re :: rat) / 2 ^ J < of_int Rc / 2 ^ J"
    by (simp add: divide_strict_right_mono)
  then have rej: "\<not> temp_d_at 3 24 k \<le> fl 53 (fl 53 (of_int n) + epsilon)"
    unfolding td rhs by simp
  have kk: "k < LLONG_MAX" using assms(2) by (simp add: LLONG_MAX_def)
  show ?thesis
    by (subst privateKey_loop.simps) (simp add: dl rej kk)
qed

lemma privateKey_loop_3_24_run:
  "k \<le> 2 ^ 49 \<Longrightarrow> 1 \<le> k \<longrightarrow> privateKey_loop 3 24 k = privateKey_loop 3 24 (2 ^ 49)"
proof (induction k rule: int_le_induct)
  case base
  show ?case by simp
next
  case (step i)
  show ?case
  proof
    assume i: "1 \<le> i - 1"
    then have "i - 1 < 2 ^ 49" using step.hyps by simp
    with i have "privateKey_loop 3 24 (i - 1) = privateKey_loop 3 24 (i - 1 + 1)"
      by (rule privateKey_loop_3_24_reject)
    also have "\<dots> = privateKey_loop 3 24 (2 ^ 49)" using step.IH i by simp
    finally show "privateKey_loop 3 24 (i - 1) = privateKey_loop 3 24 (2 ^ 49)" .
  qed
qed

lemma temp_d_at_3_24_last: "temp_d_at 3 24 562949953421312 = 4503599627370496"
  by (simp add: temp_d_at_def fl_eval)

lemma privateKey_loop_3_24_last: "privateKey_loop 3 24 562949953421312 = Inr 4503599627370496"
  by (subst privateKey_loop.simps)
     (simp add: temp_d_at_3_24_last double_to_ll_def LLONG_MIN_def LLONG_MAX_def
        epsilon_value, simp add: fl_eval)

lemma privateKey_loop_3_24: "privateKey_loop 3 24 1 = Inr 4503599627370496"
proof -
  have "privateKey_loop 3 24 1 = privateKey_loop 3 24 (2 ^ 49)"
    using privateKey_loop_3_24_run [of 1] by simp
  then show ?thesis using privateKey_loop_3_24_last by simp
qed

lemma privateKey_5_7:
  "privateKey 5 7 \<lparr>pub_n = 35, pub_e = 3\<rparr>
     = Inr \<lparr>priv_p = 5, priv_q = 7, priv_d = 4503599627370496\<rparr>"
proof -
  have "both_prime 5 7 = Inr True" by code_simp
  moreover have "phi 35 5 7 = Inr 24" by code_simp
  ultimately show ?thesis
    by (simp add: privateKey_def and_then_def assert_def privateKey_loop_3_24)
qed

subsection \<open>Round trips with the key of 3 and 11\<close>

lemma round_trip_3_11:
  "\<forall>m \<in> set [1..32].
     and_then (encode \<lparr>pub_n = 33, pub_e = 3\<rparr> m)
       (decode \<lparr>pub_n = 33, pub_e = 3\<rparr> \<lparr>priv_p = 3, priv_q = 11, priv_d = 7\<rparr>) = Inr m"
  by code_simp

section \<open>A prime beyond INT_MAX\<close>

text \<open>
  \<open>3221225473 = 3 * 2^30 + 1\<close> has no divisor between 1 and itself.  The argument is
  Proth's: \<open>125 ^ (2 ^ 29)\<close> is \<open>- 1\<close> modulo the number, hence modulo each of its
  divisors \<open>d > 2\<close>; so the powers \<open>125 ^ j\<close> for \<open>j < 2 ^ 30\<close> are pairwise different
  and nonzero modulo \<open>d\<close>, which makes \<open>d\<close> larger than \<open>2 ^ 30\<close>; and two such divisors
  multiply to more than the number.
\<close>

lemma ex_pow2_odd: "0 < m \<Longrightarrow> \<exists>s u. m = 2 ^ s * u \<and> odd u" for m :: nat
proof (induction m rule: less_induct)
  case (less m)
  show ?case
  proof (cases "odd m")
    case True
    then have "m = 2 ^ 0 * m \<and> odd m" by simp
    then show ?thesis by blast
  next
    case False
    then obtain m' where m': "m = 2 * m'" by (auto elim: evenE)
    with less.prems have "m' < m" "0 < m'" by simp_all
    from less.IH [OF this] obtain s u where "m' = 2 ^ s * u" "odd u" by blast
    with m' have "m = 2 ^ (Suc s) * u \<and> odd u" by simp
    then show ?thesis by blast
  qed
qed

lemma pow_double: "b ^ (2 ^ (t + 1)) = b ^ (2 ^ t) * b ^ (2 ^ t)" for b :: int
proof -
  have "b ^ (2 ^ (t + 1)) = b ^ (2 ^ t * 2)" by (simp add: mult.commute)
  also have "\<dots> = (b ^ (2 ^ t)) ^ 2" by (rule power_mult)
  also have "\<dots> = b ^ (2 ^ t) * b ^ (2 ^ t)" by (rule power2_eq_square)
  finally show ?thesis .
qed

lemma pow_order_bound:
  fixes b d :: int
  assumes d2: "2 < d" and m1: "d dvd b ^ (2 ^ t) + 1"
  shows "2 ^ (t + 1) < d"
proof -
  have sq: "b ^ (2 ^ (t + 1)) = b ^ (2 ^ t) * b ^ (2 ^ t)"
    by (rule pow_double)
  have "(x - 1) * (x + 1) = x * x - 1" for x :: int
    by (simp add: algebra_simps)
  then have "b ^ (2 ^ (t + 1)) - 1 = (b ^ (2 ^ t) - 1) * (b ^ (2 ^ t) + 1)"
    unfolding sq by simp
  with m1 have one: "d dvd b ^ (2 ^ (t + 1)) - 1" by simp
  have cop: "coprime d b"
  proof (rule coprimeI)
    fix c assume c: "c dvd d" "c dvd b"
    have "(0::nat) < 2 ^ (t + 1)" by simp
    then have "b dvd b ^ (2 ^ (t + 1))" by (intro dvd_power) simp
    with c have "c dvd b ^ (2 ^ (t + 1))" by (meson dvd_trans)
    moreover from c one have "c dvd b ^ (2 ^ (t + 1)) - 1" by (meson dvd_trans)
    ultimately have "c dvd b ^ (2 ^ (t + 1)) - (b ^ (2 ^ (t + 1)) - 1)" by (rule dvd_diff)
    then show "is_unit c" by simp
  qed
  then have copj: "coprime d (b ^ j)" for j by simp
  have neg: "b ^ (2 ^ t) mod d = (- 1) mod d"
    using m1 by (simp add: mod_eq_dvd_iff)
  have no_rel: False if m: "0 < m" "m < 2 ^ (t + 1)" and rel: "d dvd b ^ m - 1" for m :: nat
  proof -
    from ex_pow2_odd [OF m(1)] obtain s u where su: "m = 2 ^ s * u" "odd u" by blast
    then have "0 < u" by (simp add: odd_pos)
    then have "(2::nat) ^ s \<le> m" using su by simp
    with m(2) have "(2::nat) ^ s < 2 ^ (t + 1)" by simp
    then have "s < t + 1" by (rule power_less_imp_less_exp [rotated]) simp
    then have st: "s \<le> t" by simp
    have e: "m * 2 ^ (t - s) = 2 ^ t * u"
      using st su by (simp add: power_add [symmetric] mult.assoc mult.left_commute)
    have "b ^ m mod d = 1 mod d" using rel by (simp add: mod_eq_dvd_iff)
    then have "(b ^ m) ^ (2 ^ (t - s)) mod d = 1 ^ (2 ^ (t - s)) mod d"
      by (metis power_mod)
    then have a: "b ^ (2 ^ t * u) mod d = 1 mod d"
      by (simp add: power_mult [symmetric] e)
    have "(b ^ (2 ^ t)) ^ u mod d = (- 1) ^ u mod d"
      using neg by (metis power_mod)
    then have b: "b ^ (2 ^ t * u) mod d = (- 1) mod d"
      using su(2) by (simp add: power_mult [symmetric])
    from a b have "(1::int) mod d = (- 1) mod d" by simp
    then have "d dvd 1 - (- 1)" by (simp only: mod_eq_dvd_iff)
    then have "d dvd 2" by simp
    then have "d \<le> 2" by (intro zdvd_imp_le) simp_all
    with d2 show False by simp
  qed
  define f where "f j = b ^ j mod d" for j :: nat
  have inj: "inj_on f {..<2 ^ (t + 1)}"
  proof (rule linorder_inj_onI)
    fix i j :: nat
    assume ij: "i < j" and i: "i \<in> {..<2 ^ (t + 1)}" and j: "j \<in> {..<2 ^ (t + 1)}"
    show "f i \<noteq> f j"
    proof
      assume "f i = f j"
      then have "b ^ j mod d = b ^ i mod d" by (simp add: f_def)
      then have "d dvd b ^ j - b ^ i" by (simp only: mod_eq_dvd_iff)
      moreover have "b ^ j - b ^ i = b ^ i * (b ^ (j - i) - 1)"
        using ij by (simp add: algebra_simps power_add [symmetric])
      ultimately have "d dvd b ^ i * (b ^ (j - i) - 1)" by simp
      with coprime_dvd_mult_right_iff [OF copj [of i]] have "d dvd b ^ (j - i) - 1"
        by (simp only:)
      moreover have "0 < j - i" "j - i < 2 ^ (t + 1)" using ij j by auto
      ultimately show False using no_rel by blast
    qed
  qed (rule linear)
  have rng: "f ` {..<2 ^ (t + 1)} \<subseteq> {1..<d}"
  proof
    fix y assume "y \<in> f ` {..<2 ^ (t + 1)}"
    then obtain j where y: "y = b ^ j mod d" by (auto simp: f_def)
    have "0 \<le> y" "y < d" using d2 y by simp_all
    moreover have "y \<noteq> 0"
    proof
      assume "y = 0"
      then have "d dvd b ^ j" using y by (simp add: dvd_eq_mod_eq_0)
      then have "coprime d (b ^ j) = is_unit d" by (rule coprime_absorb_left)
      with copj [of j] have "is_unit d" by (simp only:)
      with d2 show False by simp
    qed
    ultimately show "y \<in> {1..<d}" by simp
  qed
  have "card {..<(2::nat) ^ (t + 1)} \<le> card {1..<d}"
    using inj rng by (intro card_inj_on_le) simp_all
  then have "2 ^ (t + 1) \<le> nat (d - 1)" by simp
  then have "int (2 ^ (t + 1)) \<le> d - 1" using d2 by linarith
  then show ?thesis by simp
qed

lemma sq_step:
  fixes b n :: int
  assumes "b ^ (2 ^ t) mod n = v" and "v * v mod n = w" and "t' = t + 1"
  shows "b ^ (2 ^ t') mod n = w"
proof -
  have "b ^ (2 ^ t') mod n = (b ^ (2 ^ t) * b ^ (2 ^ t)) mod n"
    unfolding assms(3) by (simp only: pow_double)
  also have "\<dots> = ((b ^ (2 ^ t) mod n) * (b ^ (2 ^ t) mod n)) mod n"
    by (simp only: mod_mult_eq)
  also have "\<dots> = w" unfolding assms(1) by (rule assms(2))
  finally show ?thesis .
qed

lemma dvd_succ_of_mod:
  fixes x n :: int
  assumes "x mod n = v" and "v + 1 = n"
  shows "n dvd x + 1"
proof -
  have "(x + 1) mod n = (x mod n + 1) mod n" by (simp only: mod_add_left_eq)
  also have "\<dots> = n mod n" unfolding assms(1) assms(2) ..
  finally show ?thesis by (simp add: dvd_eq_mod_eq_0)
qed

text \<open>
  \<open>3221225473 = 3 * 2^30 + 1\<close> divides \<open>125 ^ (2 ^ 29) + 1\<close>: twenty-nine squarings
  modulo \<open>3221225473\<close>, starting from 125.
\<close>

lemma cert_3221225473: "(3221225473::int) dvd 125 ^ (2 ^ 29) + 1"
proof -
  have c0: "(125::int) ^ (2 ^ 0) mod 3221225473 = 125" by simp
  have c1: "(125::int) ^ (2 ^ 1) mod 3221225473 = 15625"
    by (rule sq_step [OF c0]) simp_all
  have c2: "(125::int) ^ (2 ^ 2) mod 3221225473 = 244140625"
    by (rule sq_step [OF c1]) simp_all
  have c3: "(125::int) ^ (2 ^ 3) mod 3221225473 = 229807484"
    by (rule sq_step [OF c2]) simp_all
  have c4: "(125::int) ^ (2 ^ 4) mod 3221225473 = 247425463"
    by (rule sq_step [OF c3]) simp_all
  have c5: "(125::int) ^ (2 ^ 5) mod 3221225473 = 1838654099"
    by (rule sq_step [OF c4]) simp_all
  have c6: "(125::int) ^ (2 ^ 6) mod 3221225473 = 538601489"
    by (rule sq_step [OF c5]) simp_all
  have c7: "(125::int) ^ (2 ^ 7) mod 3221225473 = 140749519"
    by (rule sq_step [OF c6]) simp_all
  have c8: "(125::int) ^ (2 ^ 8) mod 3221225473 = 3182672916"
    by (rule sq_step [OF c7]) simp_all
  have c9: "(125::int) ^ (2 ^ 9) mod 3221225473 = 448192265"
    by (rule sq_step [OF c8]) simp_all
  have c10: "(125::int) ^ (2 ^ 10) mod 3221225473 = 3009749949"
    by (rule sq_step [OF c9]) simp_all
  have c11: "(125::int) ^ (2 ^ 11) mod 3221225473 = 511777184"
    by (rule sq_step [OF c10]) simp_all
  have c12: "(125::int) ^ (2 ^ 12) mod 3221225473 = 1358427440"
    by (rule sq_step [OF c11]) simp_all
  have c13: "(125::int) ^ (2 ^ 13) mod 3221225473 = 1800384970"
    by (rule sq_step [OF c12]) simp_all
  have c14: "(125::int) ^ (2 ^ 14) mod 3221225473 = 2519378301"
    by (rule sq_step [OF c13]) simp_all
  have c15: "(125::int) ^ (2 ^ 15) mod 3221225473 = 1405588668"
    by (rule sq_step [OF c14]) simp_all
  have c16: "(125::int) ^ (2 ^ 16) mod 3221225473 = 1445148504"
    by (rule sq_step [OF c15]) simp_all
  have c17: "(125::int) ^ (2 ^ 17) mod 3221225473 = 1734477367"
    by (rule sq_step [OF c16]) simp_all
  have c18: "(125::int) ^ (2 ^ 18) mod 3221225473 = 211283056"
    by (rule sq_step [OF c17]) simp_all
  have c19: "(125::int) ^ (2 ^ 19) mod 3221225473 = 1168849724"
    by (rule sq_step [OF c18]) simp_all
  have c20: "(125::int) ^ (2 ^ 20) mod 3221225473 = 1855261384"
    by (rule sq_step [OF c19]) simp_all
  have c21: "(125::int) ^ (2 ^ 21) mod 3221225473 = 764652596"
    by (rule sq_step [OF c20]) simp_all
  have c22: "(125::int) ^ (2 ^ 22) mod 3221225473 = 1958494276"
    by (rule sq_step [OF c21]) simp_all
  have c23: "(125::int) ^ (2 ^ 23) mod 3221225473 = 1292405718"
    by (rule sq_step [OF c22]) simp_all
  have c24: "(125::int) ^ (2 ^ 24) mod 3221225473 = 651814490"
    by (rule sq_step [OF c23]) simp_all
  have c25: "(125::int) ^ (2 ^ 25) mod 3221225473 = 66931328"
    by (rule sq_step [OF c24]) simp_all
  have c26: "(125::int) ^ (2 ^ 26) mod 3221225473 = 2526611335"
    by (rule sq_step [OF c25]) simp_all
  have c27: "(125::int) ^ (2 ^ 27) mod 3221225473 = 1031213943"
    by (rule sq_step [OF c26]) simp_all
  have c28: "(125::int) ^ (2 ^ 28) mod 3221225473 = 1013946479"
    by (rule sq_step [OF c27]) simp_all
  have c29: "(125::int) ^ (2 ^ 29) mod 3221225473 = 3221225472"
    by (rule sq_step [OF c28]) simp_all
  from c29 show ?thesis by (rule dvd_succ_of_mod) simp
qed

lemma no_divisor_3221225473:
  "\<not> (\<exists>k::int. 2 \<le> k \<and> k < 3221225473 \<and> k dvd 3221225473)"
proof
  assume "\<exists>k::int. 2 \<le> k \<and> k < 3221225473 \<and> k dvd 3221225473"
  then obtain k :: int where k: "2 \<le> k" "k < 3221225473" "k dvd 3221225473" by blast
  from k(3) obtain c where c: "3221225473 = k * c" by (rule dvdE)
  have odd: "\<not> 2 dvd (3221225473::int)" by simp
  have big: "1073741824 < d" if "2 \<le> d" "d dvd 3221225473" for d :: int
  proof -
    from that(2) odd have "d \<noteq> 2" by auto
    with that(1) have "2 < d" by simp
    moreover from that(2) cert_3221225473 have "d dvd 125 ^ (2 ^ 29) + 1"
      by (rule dvd_trans)
    ultimately have "2 ^ (29 + 1) < d" by (rule pow_order_bound)
    then show ?thesis by simp
  qed
  have "0 < c"
  proof (rule ccontr)
    assume "\<not> 0 < c"
    then have "c \<le> 0" by simp
    with k(1) have "k * c \<le> 0" by (simp add: mult_le_0_iff)
    with c show False by simp
  qed
  moreover have "c \<noteq> 1" using c k(2) by auto
  ultimately have "2 \<le> c" by simp
  moreover have "c dvd 3221225473" unfolding c by simp
  ultimately have "1073741824 < c" by (rule big)
  moreover from k(1,3) have "1073741824 < k" by (rule big)
  ultimately have "1073741824 * 1073741824 \<le> k * c"
    by (intro mult_mono) simp_all
  with c show False by simp
qed

section \<open>isPrime on the inputs of the test list\<close>

text \<open>
  C8.  The specification lists four values of \<open>isPrime\<close>: true at 2, false at 1, true at
  17 and false at 15.  The code returns them at 2, 17 and 15.  At 1 the loop body never
  runs (\<open>2 < 1\<close> is false) and the function returns true: 1 is reported prime.
\<close>

theorem isPrime_listed_values:
  "isPrime 2 = Inr True \<and> isPrime 1 = Inr True \<and> isPrime 17 = Inr True \<and> isPrime 15 = Inr False"
  by code_simp

section \<open>The coprimality test\<close>

text \<open>
  C3.  \<open>areCoprimes a b\<close> is claimed to be true exactly when \<open>gcd a b = 1\<close>.  The inner
  loop compares the two divisor lists at the same position only, so a common divisor
  that sits at different positions is missed: 3 is at position 1 of the divisors of 3 and
  at position 2 of the divisors of 24, and the code answers true for 3 and 24, whose
  greatest common divisor is 3.
\<close>

theorem areCoprimes_3_24:
  "areCoprimes 3 24 = Inr True \<and> gcd (3::int) 24 = 3"
  by code_simp

text \<open>
  C10, as stated.  The claim names \<open>a = 12\<close>, \<open>b = 4\<close> as a pair where the read of
  \<open>b_dividerList[i]\<close> leaves the list of \<open>b\<close>, 12 having six divisors and 4 three.
  There the two lists agree at position 1 (both hold 2): the function returns false at
  once and reads nothing out of range.
\<close>

theorem areCoprimes_12_4_in_bounds:
  "dividerList 12 = Inr [1, 2, 3, 4, 6, 12] \<and> dividerList 4 = Inr [1, 2, 4]
   \<and> areCoprimes 12 4 = Inr False"
  by code_simp

text \<open>
  C10, amended.  For \<open>a\<close> and \<open>b\<close> above 1 the read of \<open>b_dividerList[i]\<close> leaves the list
  of \<open>b\<close> exactly when \<open>a\<close> has more divisors than \<open>b\<close> and the two lists differ at
  every position from 1 up to the end of the list of \<open>b\<close>.  Such inputs exist, so the
  read is not in range for all inputs above 1.
\<close>

theorem areCoprimes_out_of_range_iff:
  assumes "1 < a" "1 < b" "dividerList a = Inr al" "dividerList b = Inr bl"
  shows "(areCoprimes a b = Inl IndexOutOfRange)
       = (length bl < length al \<and> (\<forall>i. 1 \<le> i \<and> i < length bl \<longrightarrow> al ! i \<noteq> bl ! i))"
proof -
  have "bl = filter (\<lambda>k. k dvd b) [1..b]" using assms(4) by (rule dividerList_InrD)
  moreover have "2 \<le> length (filter (\<lambda>k. k dvd b) [1..b])"
    using assms(2) by (intro length_divisors_ge2) simp
  ultimately have lb: "2 \<le> length bl" by simp
  then have lb1: "1 < length bl" by simp
  have ne: "a \<noteq> 1" "b \<noteq> 1" using assms(1,2) by simp_all
  let ?E = "\<exists>k. 1 \<le> k \<and> k < length al \<and> k < length bl \<and> al ! k = bl ! k"
  have eq: "areCoprimes a b =
     (if ?E then Inr False
      else if 1 < length al \<and> length bl < length al then Inl IndexOutOfRange
      else Inr True)"
    using ne assms(3,4) lb1 by (rule areCoprimes_lists)
  show ?thesis
  proof (cases "length bl < length al")
    case False
    then show ?thesis unfolding eq by simp
  next
    case True
    then have "?E = (\<not> (\<forall>i. 1 \<le> i \<and> i < length bl \<longrightarrow> al ! i \<noteq> bl ! i))"
      by (auto intro: less_trans)
    moreover have "1 < length al" using True lb1 by simp
    ultimately show ?thesis unfolding eq using True by simp
  qed
qed

text \<open>
  C10, at \<open>a = 6\<close> and \<open>b = 5\<close>: the divisors are \<open>[1, 2, 3, 6]\<close> and \<open>[1, 5]\<close>, position
  1 holds 2 and 5, and position 2 is past the end of the second list.
\<close>

theorem areCoprimes_out_of_range_witness:
  "(1::int) < 6 \<and> (1::int) < 5 \<and> dividerList 6 = Inr [1, 2, 3, 6] \<and> dividerList 5 = Inr [1, 5]
   \<and> areCoprimes 6 5 = Inl IndexOutOfRange"
proof -
  have d6: "dividerList 6 = Inr [1, 2, 3, 6]" by code_simp
  have d5: "dividerList 5 = Inr [1, 5]" by code_simp
  have "\<forall>i. 1 \<le> i \<and> i < length [1, 5::int] \<longrightarrow> [1, 2, 3, 6::int] ! i \<noteq> [1, 5] ! i"
  proof (intro allI impI)
    fix i :: nat
    assume "1 \<le> i \<and> i < length [1, 5::int]"
    then have "i = 1" by simp
    then show "[1, 2, 3, 6::int] ! i \<noteq> [1, 5] ! i" by simp
  qed
  then have "areCoprimes 6 5 = Inl IndexOutOfRange"
    using areCoprimes_out_of_range_iff [of 6 5, OF _ _ d6 d5] by simp
  then show ?thesis using d6 d5 by simp
qed

section \<open>Key generation\<close>

text \<open>
  C4.  \<open>publicKey p q\<close> is claimed to return, for primes \<open>p\<close> and \<open>q\<close>, the smallest
  \<open>e \<ge> 2\<close> coprime with \<open>(p - 1) * (q - 1)\<close>.  For 5 and 7 the totient is 24 and the
  code returns \<open>e = 3\<close>, which divides 24; the smallest exponent coprime with 24 is 5.
  The scan stops at 3 because \<open>areCoprimes 3 24\<close> is true (C3).  For 3 and 11 the
  returned exponent is the 3 of the claim.
\<close>

theorem publicKey_5_7_exponent:
  "publicKey 5 7 = Inr \<lparr>pub_n = 35, pub_e = 3\<rparr> \<and> phi 35 5 7 = Inr 24
   \<and> gcd (2::int) 24 = 2 \<and> gcd (3::int) 24 = 3 \<and> gcd (4::int) 24 = 4 \<and> gcd (5::int) 24 = 1
   \<and> publicKey 3 11 = Inr \<lparr>pub_n = 33, pub_e = 3\<rparr> \<and> phi 33 3 11 = Inr 20
   \<and> gcd (2::int) 20 = 2 \<and> gcd (3::int) 20 = 1"
  by code_simp

text \<open>
  C6.  \<open>publicKey\<close> is claimed to fail when no exponent from 2 below the totient is
  coprime with it.  For the primes 2 and 3 both assertions pass, the totient is 2 and no
  such exponent exists; the scan loop does not run, \<open>e\<close> keeps its initial value, and
  the code returns the key with \<open>n = 6\<close> and \<open>e = 0\<close> where the search was to choose a
  correct exponent.  With that key every message encodes to 1.
\<close>

theorem publicKey_2_3_returns_key:
  "phi 6 2 3 = Inr 2
   \<and> \<not> (\<exists>e::int. 2 \<le> e \<and> e < 2 \<and> gcd e 2 = 1)
   \<and> publicKey 2 3 = Inr \<lparr>pub_n = 6, pub_e = 0\<rparr>
   \<and> encode \<lparr>pub_n = 6, pub_e = 0\<rparr> m = Inr 1"
proof -
  have "phi 6 2 3 = Inr 2" by code_simp
  moreover have "\<not> (\<exists>e::int. 2 \<le> e \<and> e < 2 \<and> gcd e 2 = 1)" by simp
  moreover have "publicKey 2 3 = Inr \<lparr>pub_n = 6, pub_e = 0\<rparr>" by code_simp
  moreover have "encode \<lparr>pub_n = 6, pub_e = 0\<rparr> m = Inr 1"
    by (simp add: encode_def power_def and_then_def ll_rem_def signed_modulo_int_def)
  ultimately show ?thesis by (intro conjI)
qed

text \<open>
  C7.  \<open>phi 15 3 5\<close> is 8; \<open>phi 14 3 5\<close> fails its first assertion; \<open>publicKey\<close> and
  \<open>privateKey\<close> with \<open>p = 4\<close> fail the primality assertion.  The claim has key
  generation fail for every \<open>p\<close> that is not prime.  1 is not prime, but \<open>isPrime 1\<close> is
  true (C8), the assertion passes, and \<open>publicKey 1 5\<close> returns the key with \<open>n = 5\<close>
  and \<open>e = 0\<close>.
\<close>

theorem key_generation_checks:
  "phi 15 3 5 = Inr 8 \<and> phi 14 3 5 = Inl AssertionFailed
   \<and> publicKey 4 q = Inl AssertionFailed \<and> privateKey 4 q key = Inl AssertionFailed
   \<and> isPrime 1 = Inr True
   \<and> publicKey 1 5 = Inr \<lparr>pub_n = 5, pub_e = 0\<rparr>"
proof -
  have "phi 15 3 5 = Inr 8" by code_simp
  moreover have "phi 14 3 5 = Inl AssertionFailed" by code_simp
  moreover have "publicKey 4 q = Inl AssertionFailed"
    using isPrime_4 by (rule publicKey_isPrime_false)
  moreover have "privateKey 4 q key = Inl AssertionFailed"
    using isPrime_4 by (rule privateKey_isPrime_false)
  moreover have "isPrime 1 = Inr True" by code_simp
  moreover have "publicKey 1 5 = Inr \<lparr>pub_n = 5, pub_e = 0\<rparr>" by code_simp
  ultimately show ?thesis by (intro conjI)
qed

section \<open>isPrime beyond the range of its counter\<close>

text \<open>
  C9.  \<open>isPrime x\<close> is claimed to be true, for every \<open>x\<close>, exactly when no \<open>i\<close> from 2
  below \<open>x\<close> divides \<open>x\<close>.  The counter \<open>i\<close> is an \<open>int\<close> and \<open>x\<close> a \<open>long long int\<close>:
  for \<open>x = 3221225473\<close>, which no such \<open>i\<close> divides, the counter reaches \<open>INT_MAX\<close>
  with \<open>i < x\<close> still true, and \<open>++i\<close> overflows.  The call does not return true.
  (\<open>isPrime_eq\<close> gives the result for every \<open>x\<close>; up to \<open>INT_MAX\<close> it is the claimed
  one.)
\<close>

theorem isPrime_3221225473_overflows:
  "isPrime 3221225473 = Inl SignedOverflow
   \<and> \<not> (\<exists>i::int. 2 \<le> i \<and> i < 3221225473 \<and> 3221225473 mod i = 0)"
proof -
  have nd: "\<not> (\<exists>k::int. 2 \<le> k \<and> k < 3221225473 \<and> k dvd 3221225473)"
    by (rule no_divisor_3221225473)
  then have "\<not> (\<exists>k::int. 2 \<le> k \<and> k < 3221225473 \<and> k \<le> INT_MAX \<and> k dvd 3221225473)"
    by blast
  moreover have "\<not> 3221225473 \<le> INT_MAX" by (simp add: INT_MAX_def)
  ultimately have "isPrime 3221225473 = Inl SignedOverflow"
    unfolding isPrime_eq by (simp only: if_False)
  moreover have "\<not> (\<exists>i::int. 2 \<le> i \<and> i < 3221225473 \<and> 3221225473 mod i = 0)"
    using nd by (simp add: dvd_eq_mod_eq_0)
  ultimately show ?thesis ..
qed

section \<open>The cipher\<close>

text \<open>
  C2.  For \<open>p = 3\<close> and \<open>q = 11\<close>: \<open>publicKey\<close> returns \<open>n = 33\<close> and \<open>e = 3\<close>, the totient
  being 20; \<open>privateKey\<close> returns \<open>d = 7\<close>, and \<open>3 * 7\<close> is 1 modulo 20; \<open>encode\<close> maps
  7 to 13 and \<open>decode\<close> maps 13 back to 7.
\<close>

theorem rsa_chain_3_11:
  "publicKey 3 11 = Inr \<lparr>pub_n = 33, pub_e = 3\<rparr>
   \<and> phi 33 3 11 = Inr 20
   \<and> privateKey 3 11 \<lparr>pub_n = 33, pub_e = 3\<rparr> = Inr \<lparr>priv_p = 3, priv_q = 11, priv_d = 7\<rparr>
   \<and> (3 * 7) mod 20 = (1::int)
   \<and> encode \<lparr>pub_n = 33, pub_e = 3\<rparr> 7 = Inr 13 \<and> 7 ^ 3 mod 33 = (13::int)
   \<and> decode \<lparr>pub_n = 33, pub_e = 3\<rparr> \<lparr>priv_p = 3, priv_q = 11, priv_d = 7\<rparr> 13 = Inr 7
   \<and> 13 ^ 7 mod 33 = (7::int)"
proof -
  have "publicKey 3 11 = Inr \<lparr>pub_n = 33, pub_e = 3\<rparr>" by code_simp
  moreover have "phi 33 3 11 = Inr 20" by code_simp
  moreover note privateKey_3_11
  moreover have "(3 * 7) mod 20 = (1::int)" by simp
  moreover have "encode \<lparr>pub_n = 33, pub_e = 3\<rparr> 7 = Inr 13" by code_simp
  moreover have "7 ^ 3 mod 33 = (13::int)" by simp
  moreover have
    "decode \<lparr>pub_n = 33, pub_e = 3\<rparr> \<lparr>priv_p = 3, priv_q = 11, priv_d = 7\<rparr> 13 = Inr 7"
    by code_simp
  moreover have "13 ^ 7 mod 33 = (7::int)" by simp
  ultimately show ?thesis by (intro conjI)
qed

text \<open>
  C1.  Decoding is claimed to undo encoding for every pair of primes and every message
  \<open>m\<close> with \<open>0 < m < p * q\<close>.  For the primes 5 and 7 \<open>publicKey\<close> returns \<open>e = 3\<close>
  (C4) and \<open>privateKey\<close> returns \<open>d = 2^52\<close>.  The message 16 encodes to 1, and 1
  decodes to 1, not to 16.  No other private key would do: cubing is not injective
  modulo 35, the messages 1 and 16 both encode to 1, and \<open>decode\<close> returns one value
  for the ciphertext 1.
\<close>

theorem round_trip_5_7_fails:
  "publicKey 5 7 = Inr \<lparr>pub_n = 35, pub_e = 3\<rparr>
   \<and> privateKey 5 7 \<lparr>pub_n = 35, pub_e = 3\<rparr>
       = Inr \<lparr>priv_p = 5, priv_q = 7, priv_d = 4503599627370496\<rparr>
   \<and> and_then (encode \<lparr>pub_n = 35, pub_e = 3\<rparr> 16)
         (decode \<lparr>pub_n = 35, pub_e = 3\<rparr>
            \<lparr>priv_p = 5, priv_q = 7, priv_d = 4503599627370496\<rparr>) = Inr 1
   \<and> encode \<lparr>pub_n = 35, pub_e = 3\<rparr> 1 = Inr 1
   \<and> encode \<lparr>pub_n = 35, pub_e = 3\<rparr> 16 = Inr 1
   \<and> \<not> (\<exists>priv.
         and_then (encode \<lparr>pub_n = 35, pub_e = 3\<rparr> 1) (decode \<lparr>pub_n = 35, pub_e = 3\<rparr> priv)
           = Inr 1
       \<and> and_then (encode \<lparr>pub_n = 35, pub_e = 3\<rparr> 16) (decode \<lparr>pub_n = 35, pub_e = 3\<rparr> priv)
           = Inr 16)"
proof -
  have k: "publicKey 5 7 = Inr \<lparr>pub_n = 35, pub_e = 3\<rparr>" by code_simp
  have e1: "encode \<lparr>pub_n = 35, pub_e = 3\<rparr> 1 = Inr 1" by code_simp
  have e16: "encode \<lparr>pub_n = 35, pub_e = 3\<rparr> 16 = Inr 1" by code_simp
  have "ll 1 = Inr 1" by (simp add: ll_def LLONG_MIN_def LLONG_MAX_def)
  then have "power 1 4503599627370496 = Inr 1" by (simp add: power_eq)
  then have d1: "decode \<lparr>pub_n = 35, pub_e = 3\<rparr>
      \<lparr>priv_p = 5, priv_q = 7, priv_d = 4503599627370496\<rparr> 1 = Inr 1"
    by (simp add: decode_def and_then_def ll_rem_def signed_modulo_int_def)
  have rt: "and_then (encode \<lparr>pub_n = 35, pub_e = 3\<rparr> 16)
         (decode \<lparr>pub_n = 35, pub_e = 3\<rparr>
            \<lparr>priv_p = 5, priv_q = 7, priv_d = 4503599627370496\<rparr>) = Inr 1"
    unfolding e16 using d1 by (simp add: and_then_def)
  have "\<not> (\<exists>priv.
         and_then (encode \<lparr>pub_n = 35, pub_e = 3\<rparr> 1) (decode \<lparr>pub_n = 35, pub_e = 3\<rparr> priv)
           = Inr 1
       \<and> and_then (encode \<lparr>pub_n = 35, pub_e = 3\<rparr> 16) (decode \<lparr>pub_n = 35, pub_e = 3\<rparr> priv)
           = Inr 16)"
    unfolding e1 e16 by (auto simp: and_then_def)
  with k privateKey_5_7 rt e1 e16 show ?thesis by (intro conjI)
qed

text \<open>
  C5.  \<open>privateKey\<close> is claimed to return, for the key generated from two primes, the
  \<open>d\<close> in \<open>[1, phi)\<close> with \<open>e * d mod phi = 1\<close>.  For the primes 5 and 7 the generated
  key has \<open>e = 3\<close> and the totient is 24 (C4): \<open>3 * d\<close> is a multiple of 3 modulo 24
  for every \<open>d\<close>, so there is no such \<open>d\<close>.  The search ends only where the rounding
  of \<open>temp_d\<close> hides the fraction, and returns \<open>d = 2^52\<close>: beyond the totient, and
  \<open>3 * d mod 24\<close> is 0.
\<close>

theorem privateKey_5_7_no_inverse:
  "publicKey 5 7 = Inr \<lparr>pub_n = 35, pub_e = 3\<rparr> \<and> phi 35 5 7 = Inr 24
   \<and> privateKey 5 7 \<lparr>pub_n = 35, pub_e = 3\<rparr>
       = Inr \<lparr>priv_p = 5, priv_q = 7, priv_d = 4503599627370496\<rparr>
   \<and> (3 * 4503599627370496) mod 24 = (0::int)
   \<and> (24::int) \<le> 4503599627370496
   \<and> \<not> (\<exists>d::int. 3 * d mod 24 = 1)"
proof -
  have "publicKey 5 7 = Inr \<lparr>pub_n = 35, pub_e = 3\<rparr>" by code_simp
  moreover have "phi 35 5 7 = Inr 24" by code_simp
  moreover note privateKey_5_7
  moreover have "(3 * 4503599627370496) mod 24 = (0::int)" by simp
  moreover have "(24::int) \<le> 4503599627370496" by simp
  moreover have "\<not> (\<exists>d::int. 3 * d mod 24 = 1)" by presburger
  ultimately show ?thesis by (intro conjI)
qed

end
